theory Spec2Isabelle
  imports Complex_Main "HOL-Library.Word" "HOL-Library.Signed_Division"
begin

section \<open>wafreport: anomaly score statistics\<close>

text \<open>
  A shallow embedding of \<^verbatim>\<open>wafreport.c\<close>. The program reads lines of the form
  \<^verbatim>\<open>INBOUND OUTBOUND\<close> from standard input, counts every score in one of two
  histograms of \<^verbatim>\<open>MAX_SCORE + 1\<close> buckets, and prints per-score percentages, the mean
  and the median of each histogram.
\<close>

subsection \<open>C integers and doubles\<close>

text \<open>
  A C \<^verbatim>\<open>int\<close> is a 32-bit word read in two's complement by \<^term>\<open>sint\<close>. Signed overflow
  is undefined in ISO C; the model takes the wrap-around of the usual two's complement
  targets, which is what \<open>+\<close> and \<open>*\<close> on words do.
\<close>

type_synonym c_int = "32 word"

definition MAX_SCORE :: nat where
  "MAX_SCORE = 65536"

text \<open>C's \<^verbatim>\<open>/\<close> on \<^verbatim>\<open>int\<close> truncates towards zero.\<close>

definition c_div :: "c_int \<Rightarrow> c_int \<Rightarrow> c_int" where
  "c_div a b = word_of_int (sint a sdiv sint b)"

text \<open>C's \<^verbatim>\<open>%\<close> on \<^verbatim>\<open>int\<close>: the remainder has the sign of the dividend.\<close>

definition c_mod :: "c_int \<Rightarrow> c_int \<Rightarrow> c_int" where
  "c_mod a b = word_of_int (sint a smod sint b)"

text \<open>
  A \<^verbatim>\<open>double\<close> is a real number or one of the IEEE 754 special values. Rounding is not
  modelled: \<open>Num r\<close> stands for the double nearest to \<open>r\<close>. Every sum the program forms
  in a double is a sum of at most 65537 \<^verbatim>\<open>int\<close> values, an integer below \<open>2 ^ 53\<close> in
  magnitude, which a double holds exactly; only the quotients are rounded.
\<close>

datatype double = Num real | PosInf | NegInf | NaN

text \<open>Division of two finite doubles.\<close>

definition double_div :: "real \<Rightarrow> real \<Rightarrow> double" where
  "double_div x y =
     (if y \<noteq> 0 then Num (x / y)
      else if 0 < x then PosInf
      else if x < 0 then NegInf
      else NaN)"

text \<open>\<^verbatim>\<open>100 * d\<close>\<close>

fun times_100 :: "double \<Rightarrow> double" where
  "times_100 (Num r) = Num (100 * r)"
| "times_100 PosInf = PosInf"
| "times_100 NegInf = NegInf"
| "times_100 NaN = NaN"

text \<open>\<^verbatim>\<open>100 - d\<close>\<close>

fun minus_from_100 :: "double \<Rightarrow> double" where
  "minus_from_100 (Num r) = Num (100 - r)"
| "minus_from_100 PosInf = NegInf"
| "minus_from_100 NegInf = PosInf"
| "minus_from_100 NaN = NaN"

subsection \<open>The C library: \<^verbatim>\<open>fgets\<close> and \<^verbatim>\<open>sscanf\<close>\<close>

text \<open>
  Standard input is a list of bytes. \<^verbatim>\<open>fgets(buf, n, stdin)\<close> stores at most
  \<open>n - 1\<close> bytes, stops after a newline, and returns \<^verbatim>\<open>NULL\<close> when there is nothing
  left to read. A line longer than the buffer is therefore delivered in several pieces.
\<close>

fun fgets_take :: "nat \<Rightarrow> string \<Rightarrow> string \<times> string" where
  "fgets_take 0 s = ([], s)"
| "fgets_take (Suc k) [] = ([], [])"
| "fgets_take (Suc k) (c # s) =
     (if c = CHR 0x0A then ([c], s)
      else (case fgets_take k s of (l, r) \<Rightarrow> (c # l, r)))"

definition fgets :: "nat \<Rightarrow> string \<Rightarrow> (string \<times> string) option" where
  "fgets n stdin = (if stdin = [] then None else Some (fgets_take (n - 1) stdin))"

text \<open>\<^verbatim>\<open>sscanf\<close> reads a C string: the buffer up to its first NUL byte.\<close>

definition c_string :: "string \<Rightarrow> string" where
  "c_string buf = takeWhile (\<lambda>c. c \<noteq> CHR 0x00) buf"

definition isspace :: "char \<Rightarrow> bool" where
  "isspace c \<longleftrightarrow>
     c = CHR '' '' \<or> c = CHR 0x09 \<or> c = CHR 0x0A \<or> c = CHR 0x0B \<or> c = CHR 0x0C \<or> c = CHR 0x0D"

definition isdigit :: "char \<Rightarrow> bool" where
  "isdigit c \<longleftrightarrow> (48::nat) \<le> of_char c \<and> of_char c \<le> (57::nat)"

definition digit_value :: "char \<Rightarrow> int" where
  "digit_value c = of_char c - 48"

definition decimal :: "string \<Rightarrow> int" where
  "decimal ds = foldl (\<lambda>v c. 10 * v + digit_value c) 0 ds"

text \<open>
  The value \<^verbatim>\<open>%d\<close> stores for a sign and a digit string. A value outside the range of
  \<^verbatim>\<open>int\<close> is undefined in ISO C; the model follows glibc on LP64, where the digits go
  through \<^verbatim>\<open>strtol\<close>, which saturates at the bounds of a 64-bit \<^verbatim>\<open>long\<close>, and the result is
  then cut to 32 bits.
\<close>

definition strtol :: "bool \<Rightarrow> string \<Rightarrow> int" where
  "strtol neg ds =
     max (- (2 ^ 63)) (min (2 ^ 63 - 1) (if neg then - decimal ds else decimal ds))"

datatype scan_failure = InputFailure | MatchingFailure

text \<open>
  One \<^verbatim>\<open>%d\<close> directive: skip white space, read an optional sign and the longest run of
  digits. The end of the string before any character of the item is an input failure; a
  sign with no digit after it is a matching failure. On success the value and the unread
  rest of the string are returned.
\<close>

definition conv_d :: "string \<Rightarrow> scan_failure + (c_int \<times> string)" where
  "conv_d s =
     (case dropWhile isspace s of
        [] \<Rightarrow> Inl InputFailure
      | c # cs \<Rightarrow>
          (let body = (if c = CHR ''-'' \<or> c = CHR ''+'' then cs else c # cs);
               ds = takeWhile isdigit body
           in if ds = [] then Inl MatchingFailure
              else Inr (word_of_int (strtol (c = CHR ''-'') ds), dropWhile isdigit body)))"

text \<open>
  The three calls of \<^verbatim>\<open>sscanf\<close>. The result \<open>Some vs\<close> is the return value
  \<open>length vs\<close> with the values stored through the pointer arguments, in order;
  \<open>None\<close> is the return value \<^verbatim>\<open>EOF\<close>, an input failure before the first conversion.
\<close>

definition sscanf_d_d :: "string \<Rightarrow> c_int list option" where
  "sscanf_d_d buf =
     (case conv_d (c_string buf) of
        Inl InputFailure \<Rightarrow> None
      | Inl MatchingFailure \<Rightarrow> Some []
      | Inr (a, rest) \<Rightarrow>
          (case conv_d rest of
             Inl _ \<Rightarrow> Some [a]
           | Inr (b, _) \<Rightarrow> Some [a, b]))"

definition sscanf_d :: "string \<Rightarrow> c_int list option" where
  "sscanf_d buf =
     (case conv_d (c_string buf) of
        Inl InputFailure \<Rightarrow> None
      | Inl MatchingFailure \<Rightarrow> Some []
      | Inr (a, _) \<Rightarrow> Some [a])"

text \<open>
  The format \<^verbatim>\<open>"-%d"\<close>: the ordinary character \<^verbatim>\<open>-\<close> must be the next character of the
  input (no white space is skipped for it), then a \<^verbatim>\<open>%d\<close> directive follows.
\<close>

definition sscanf_minus_d :: "string \<Rightarrow> c_int list option" where
  "sscanf_minus_d buf =
     (case c_string buf of
        [] \<Rightarrow> None
      | c # cs \<Rightarrow>
          if c \<noteq> CHR ''-'' then Some []
          else (case conv_d cs of
                  Inl InputFailure \<Rightarrow> None
                | Inl MatchingFailure \<Rightarrow> Some []
                | Inr (b, _) \<Rightarrow> Some [b]))"

subsection \<open>\<^verbatim>\<open>read_in_scores\<close>\<close>

text \<open>
  The three attempts on one buffer, in the order of the source: \<open>Some (score_in,
  score_out)\<close> when one of them succeeds, \<open>None\<close> where the source takes
  \<^verbatim>\<open>continue\<close>.
\<close>

definition classify :: "string \<Rightarrow> (c_int \<times> c_int) option" where
  "classify line_buf =
     (case sscanf_d_d line_buf of
        Some [score_in, score_out] \<Rightarrow> Some (score_in, score_out)
      | _ \<Rightarrow>
        (case sscanf_d line_buf of
           Some [score_in] \<Rightarrow> Some (score_in, - 1)
         | _ \<Rightarrow>
           (case sscanf_minus_d line_buf of
              Some [score_out] \<Rightarrow> Some (- 1, score_out)
            | _ \<Rightarrow> None)))"

text \<open>
  Storing one score: the same three-way branch is written once for each side in the
  source. It takes the histogram and the invalid counter of a side and returns both. The
  histograms are the arrays of \<open>MAX_SCORE + 1\<close> elements that \<^verbatim>\<open>main\<close> declares; the
  branch keeps every index it uses between 0 and \<open>MAX_SCORE\<close>.
\<close>

definition store_score :: "c_int list \<Rightarrow> c_int \<Rightarrow> c_int \<Rightarrow> c_int list \<times> c_int" where
  "store_score score_count invalid score =
     (if sint score < 0 then (score_count, invalid + 1)
      else if sint score > int MAX_SCORE then
        (score_count[MAX_SCORE := score_count ! MAX_SCORE + 1], invalid)
      else
        (score_count[nat (sint score) := score_count ! nat (sint score) + 1], invalid))"

record scores =
  score_count_in :: "c_int list"
  score_count_out :: "c_int list"
  invalid_in :: c_int
  invalid_out :: c_int
  count :: c_int

text \<open>The body of the \<^verbatim>\<open>while\<close> loop, for one buffer filled by \<^verbatim>\<open>fgets\<close>.\<close>

definition loop_body :: "string \<Rightarrow> scores \<Rightarrow> scores" where
  "loop_body line_buf st =
     (case classify line_buf of
        None \<Rightarrow> st
      | Some (score_in, score_out) \<Rightarrow>
          (case store_score (score_count_in st) (invalid_in st) score_in of
             (h_in, inv_in) \<Rightarrow>
          (case store_score (score_count_out st) (invalid_out st) score_out of
             (h_out, inv_out) \<Rightarrow>
               st\<lparr>score_count_in := h_in, invalid_in := inv_in,
                  score_count_out := h_out, invalid_out := inv_out,
                  count := count st + 1\<rparr>)))"

lemma fgets_take_shorter:
  "fgets_take (Suc k) (c # s) = (l, r) \<Longrightarrow> length r < length (c # s)"
proof (induction k arbitrary: c s l r)
  case 0
  then show ?case by (auto split: if_splits)
next
  case (Suc k)
  show ?case
  proof (cases s)
    case Nil
    with Suc.prems show ?thesis by (auto split: if_splits)
  next
    case (Cons d t)
    with Suc.prems Suc.IH [of d t] show ?thesis
      by (auto split: if_splits prod.splits)
  qed
qed

lemma fgets_shorter:
  "fgets 24 stdin = Some (line_buf, rest) \<Longrightarrow> length rest < length stdin"
proof -
  assume a: "fgets 24 stdin = Some (line_buf, rest)"
  then obtain c s where s: "stdin = c # s"
    by (cases stdin) (auto simp: fgets_def)
  have "(24::nat) - 1 = Suc 22" by simp
  with a s have "fgets_take (Suc 22) (c # s) = (line_buf, rest)"
    by (simp add: fgets_def)
  then show ?thesis unfolding s by (rule fgets_take_shorter)
qed

function read_loop :: "string \<Rightarrow> scores \<Rightarrow> scores" where
  "read_loop stdin st =
     (case fgets 24 stdin of
        None \<Rightarrow> st
      | Some (line_buf, rest) \<Rightarrow> read_loop rest (loop_body line_buf st))"
  by pat_completeness auto
termination
  by (relation "measure (\<lambda>(stdin, st). length stdin)") (auto dest: fgets_shorter)

text \<open>
  \<^verbatim>\<open>read_in_scores\<close> counts into the arrays and counters its caller passes and returns
  the number of lines counted, which starts at 0.
\<close>

definition read_in_scores :: "string \<Rightarrow> scores \<Rightarrow> scores" where
  "read_in_scores stdin st = read_loop stdin (st\<lparr>count := 0\<rparr>)"

text \<open>The arrays and counters as \<^verbatim>\<open>main\<close> initialises them.\<close>

definition empty_hist :: "c_int list" where
  "empty_hist = replicate (Suc MAX_SCORE) 0"

definition initial_scores :: scores where
  "initial_scores =
     \<lparr>score_count_in = empty_hist, score_count_out = empty_hist,
      invalid_in = 0, invalid_out = 0, count = 0\<rparr>"

subsection \<open>\<^verbatim>\<open>avg_mean\<close>\<close>

text \<open>
  The loop variable \<^verbatim>\<open>i\<close> is an \<^verbatim>\<open>int\<close> that runs from 0 to \<open>MAX_SCORE + 1\<close>; it is a
  natural number here. The product \<^verbatim>\<open>i * score_count_array[i]\<close> is an \<^verbatim>\<open>int\<close> product,
  converted to \<^verbatim>\<open>double\<close> only when it is added to \<^verbatim>\<open>mean\<close>.
\<close>

function mean_loop :: "c_int list \<Rightarrow> nat \<Rightarrow> real \<Rightarrow> real" where
  "mean_loop score_count_array i mean =
     (if i \<le> MAX_SCORE then
        mean_loop score_count_array (i + 1)
          (mean + real_of_int (sint (of_nat i * score_count_array ! i)))
      else mean)"
  by pat_completeness auto
termination
  by (relation "measure (\<lambda>(a, i, m). Suc MAX_SCORE - i)") auto

definition avg_mean :: "c_int list \<Rightarrow> c_int \<Rightarrow> double" where
  "avg_mean score_count_array scores_read =
     double_div (mean_loop score_count_array 0 0) (real_of_int (sint scores_read))"

subsection \<open>\<^verbatim>\<open>avg_median\<close>\<close>

text \<open>
  Each of the three scans of \<^verbatim>\<open>avg_median\<close> adds bucket counts to the double
  \<^verbatim>\<open>median\<close> and breaks at the first index where it has reached an \<^verbatim>\<open>int\<close> limit. The
  result is the value of \<^verbatim>\<open>i\<close> after the loop: the index of the break, or
  \<open>MAX_SCORE + 1\<close> when the loop ran to its end.
\<close>

function median_scan :: "c_int list \<Rightarrow> c_int \<Rightarrow> nat \<Rightarrow> real \<Rightarrow> nat" where
  "median_scan score_count_array limit i median =
     (if i \<le> MAX_SCORE then
        (if median + real_of_int (sint (score_count_array ! i)) \<ge> real_of_int (sint limit)
         then i
         else median_scan score_count_array limit (i + 1)
                (median + real_of_int (sint (score_count_array ! i))))
      else i)"
  by pat_completeness auto
termination
  by (relation "measure (\<lambda>(a, l, i, m). Suc MAX_SCORE - i)") auto

definition avg_median :: "c_int list \<Rightarrow> c_int \<Rightarrow> double" where
  "avg_median score_count_array scores_read =
     (if c_mod scores_read 2 \<noteq> 0 then
        Num (real (median_scan score_count_array (c_div (scores_read + 1) 2) 0 0))
      else
        (let lower_value = median_scan score_count_array (c_div scores_read 2) 0 0;
             i = median_scan score_count_array (c_div scores_read 2 + 1) 0 0
         in double_div (real_of_int (sint (of_nat lower_value + of_nat i :: c_int))) 2))"

subsection \<open>\<^verbatim>\<open>print_stats\<close>\<close>

text \<open>
  The report as the values it prints, row by row; the layout (column widths from
  \<^verbatim>\<open>digit_width\<close>, the number of decimals) is left out. \<open>row_score\<close> is \<open>None\<close> in the
  row of empty or invalid scores.
\<close>

record row =
  row_score :: "nat option"
  row_count :: c_int
  row_percent :: double
  row_cumulative :: double
  row_outstanding :: double

text \<open>\<^verbatim>\<open>100 * ((double) n / scores_read)\<close>\<close>

definition percent :: "c_int \<Rightarrow> c_int \<Rightarrow> double" where
  "percent n scores_read =
     times_100 (double_div (real_of_int (sint n)) (real_of_int (sint scores_read)))"

definition make_row :: "nat option \<Rightarrow> c_int \<Rightarrow> c_int \<Rightarrow> c_int \<Rightarrow> row" where
  "make_row score n running_total scores_read =
     \<lparr>row_score = score, row_count = n, row_percent = percent n scores_read,
      row_cumulative = percent running_total scores_read,
      row_outstanding = minus_from_100 (percent running_total scores_read)\<rparr>"

function print_rows :: "c_int list \<Rightarrow> c_int \<Rightarrow> nat \<Rightarrow> c_int \<Rightarrow> row list" where
  "print_rows score_count scores_read i running_total =
     (if i \<le> MAX_SCORE then
        (if score_count ! i \<noteq> 0 then
           make_row (Some i) (score_count ! i) (running_total + score_count ! i) scores_read
             # print_rows score_count scores_read (i + 1) (running_total + score_count ! i)
         else print_rows score_count scores_read (i + 1) running_total)
      else [])"
  by pat_completeness auto
termination
  by (relation "measure (\<lambda>(a, n, i, t). Suc MAX_SCORE - i)") auto

record side_report =
  report_total :: c_int
  report_rows :: "row list"
  report_mean :: double
  report_median :: double

text \<open>One of the two blocks of the report; the source writes the block out twice.\<close>

definition print_side :: "c_int list \<Rightarrow> c_int \<Rightarrow> c_int \<Rightarrow> side_report" where
  "print_side score_count invalid scores_read =
     \<lparr>report_total = scores_read,
      report_rows =
        make_row None invalid invalid scores_read
          # print_rows score_count scores_read 0 invalid,
      report_mean = avg_mean score_count scores_read,
      report_median = avg_median score_count scores_read\<rparr>"

definition print_stats ::
  "c_int list \<Rightarrow> c_int list \<Rightarrow> c_int \<Rightarrow> c_int \<Rightarrow> c_int \<Rightarrow> side_report \<times> side_report" where
  "print_stats counts_in counts_out inv_in inv_out scores_read =
     (print_side counts_in inv_in scores_read,
      print_side counts_out inv_out scores_read)"

definition main :: "string \<Rightarrow> side_report \<times> side_report" where
  "main stdin =
     (let st = read_in_scores stdin initial_scores
      in print_stats (score_count_in st) (score_count_out st) (invalid_in st) (invalid_out st)
           (count st))"

subsection \<open>Notions used in the statements\<close>

text \<open>
  The buffers that the successive calls of \<^verbatim>\<open>fgets\<close> fill, and the number of them that
  \<^verbatim>\<open>read_in_scores\<close> counts. The step of one side of the loop body: either the invalid
  counter or exactly one bucket goes up by one, and nothing else changes. The sum of a
  histogram as an integer, and an aggregate whose counts are non-negative and add up, with
  the invalid count, to the total.
\<close>

definition one_incremented :: "c_int list \<Rightarrow> c_int \<Rightarrow> c_int list \<Rightarrow> c_int \<Rightarrow> bool" where
  "one_incremented h iv h' iv' \<longleftrightarrow>
     (iv' = iv + 1 \<and> h' = h) \<or>
     (iv' = iv \<and> (\<exists>i\<le>MAX_SCORE. h' = h[i := h ! i + 1]))"

function buffers :: "string \<Rightarrow> string list" where
  "buffers stdin =
     (case fgets 24 stdin of
        None \<Rightarrow> []
      | Some (line_buf, rest) \<Rightarrow> line_buf # buffers rest)"
  by pat_completeness auto
termination
  by (relation "measure length") (auto dest: fgets_shorter)

definition classified :: "string \<Rightarrow> nat" where
  "classified stdin = length (filter (\<lambda>b. classify b \<noteq> None) (buffers stdin))"

declare read_loop.simps [simp del] buffers.simps [simp del] mean_loop.simps [simp del]
  median_scan.simps [simp del] print_rows.simps [simp del]

definition lengths_ok :: "scores \<Rightarrow> bool" where
  "lengths_ok st \<longleftrightarrow>
     length (score_count_in st) = Suc MAX_SCORE \<and> length (score_count_out st) = Suc MAX_SCORE"

definition hist_sum :: "c_int list \<Rightarrow> int" where
  "hist_sum h = (\<Sum>c\<leftarrow>h. sint c)"

definition side_ok :: "c_int list \<Rightarrow> c_int \<Rightarrow> c_int \<Rightarrow> bool" where
  "side_ok h iv n \<longleftrightarrow>
     length h = Suc MAX_SCORE \<and> (\<forall>c\<in>set h. 0 \<le> sint c) \<and> 0 \<le> sint iv \<and>
     hist_sum h + sint iv = sint n"

definition scores_ok :: "scores \<Rightarrow> bool" where
  "scores_ok st \<longleftrightarrow>
     side_ok (score_count_in st) (invalid_in st) (count st) \<and>
     side_ok (score_count_out st) (invalid_out st) (count st)"

text \<open>
  The shape of a line, in the words of the specification: white space, an optional sign, a
  non-empty run of digits, and what may follow a number (the end of the line or a character
  that is not a digit). \<open>int_value\<close> is the integer a sign and a digit string denote;
  \<open>starts_with_int\<close> says that a text begins, after optional white space, with an integer.
\<close>

definition spaces :: "string \<Rightarrow> bool" where
  "spaces s \<longleftrightarrow> (\<forall>c\<in>set s. isspace c)"

definition digits :: "string \<Rightarrow> bool" where
  "digits s \<longleftrightarrow> s \<noteq> [] \<and> (\<forall>c\<in>set s. isdigit c)"

definition is_sign :: "string \<Rightarrow> bool" where
  "is_sign s \<longleftrightarrow> s = [] \<or> s = ''-'' \<or> s = ''+''"

definition ends_number :: "string \<Rightarrow> bool" where
  "ends_number s \<longleftrightarrow> s = [] \<or> \<not> isdigit (hd s)"

definition int_value :: "string \<Rightarrow> string \<Rightarrow> int" where
  "int_value sg ds = (if sg = ''-'' then - decimal ds else decimal ds)"

definition in_int_range :: "int \<Rightarrow> bool" where
  "in_int_range v \<longleftrightarrow> - (2 ^ 31) \<le> v \<and> v < 2 ^ 31"

definition starts_with_int :: "string \<Rightarrow> bool" where
  "starts_with_int s \<longleftrightarrow>
     (\<exists>sp sg ds rest. s = sp @ sg @ ds @ rest \<and> spaces sp \<and> is_sign sg \<and> digits ds)"

definition scanned_value :: "string \<Rightarrow> string \<Rightarrow> c_int" where
  "scanned_value sg ds = word_of_int (strtol (sg = ''-'') ds)"

text \<open>
  The running sum of a histogram up to and including a score, the first score at which it
  reaches a limit, and a histogram that is consistent with a total: its counts are
  non-negative and add up to the total.
\<close>

definition running_sum :: "c_int list \<Rightarrow> nat \<Rightarrow> int" where
  "running_sum h j = hist_sum (take (Suc j) h)"

definition first_reaches :: "c_int list \<Rightarrow> int \<Rightarrow> nat \<Rightarrow> bool" where
  "first_reaches h t i \<longleftrightarrow>
     i \<le> MAX_SCORE \<and> t \<le> running_sum h i \<and> (\<forall>j<i. running_sum h j < t)"

definition consistent_total :: "c_int list \<Rightarrow> c_int \<Rightarrow> bool" where
  "consistent_total h n \<longleftrightarrow>
     length h = Suc MAX_SCORE \<and> (\<forall>c\<in>set h. 0 \<le> sint c) \<and> hist_sum h = sint n"

text \<open>
  The scores with a non-zero bucket, in ascending order; the count that the cumulative
  column of a row stands for (the invalid count, plus the buckets up to the row's score),
  and the percentage it is printed as.
\<close>

definition nonzero_scores :: "c_int list \<Rightarrow> nat list" where
  "nonzero_scores h = filter (\<lambda>k. h ! k \<noteq> 0) [0..<Suc MAX_SCORE]"

definition cumulative_count :: "c_int list \<Rightarrow> c_int \<Rightarrow> nat option \<Rightarrow> int" where
  "cumulative_count h iv score =
     (case score of None \<Rightarrow> sint iv | Some k \<Rightarrow> sint iv + running_sum h k)"

definition cumulative_percent :: "c_int list \<Rightarrow> c_int \<Rightarrow> c_int \<Rightarrow> nat option \<Rightarrow> real" where
  "cumulative_percent h iv n score =
     100 * (real_of_int (cumulative_count h iv score) / real_of_int (sint n))"

text \<open>
  The weighted sum of a histogram over the integers, score times count, and the sum of the
  same products as the code forms them, each in \<^verbatim>\<open>int\<close>.
\<close>

definition weighted_sum :: "c_int list \<Rightarrow> int" where
  "weighted_sum h = (\<Sum>k = 0..<Suc MAX_SCORE. int k * sint (h ! k))"

definition int_products_sum :: "c_int list \<Rightarrow> int" where
  "int_products_sum h = (\<Sum>k = 0..<Suc MAX_SCORE. sint (of_nat k * h ! k))"

text \<open>An input of 32768 lines, each with the inbound score 65536.\<close>

definition score_line :: string where
  "score_line = ''65536 0'' @ [CHR 0x0A]"

definition many_high_scores :: string where
  "many_high_scores = concat (replicate 32768 score_line)"

section \<open>Properties\<close>

subsection \<open>Counting in \<^verbatim>\<open>read_in_scores\<close>\<close>

lemma sum_list_bump:
  fixes xs :: "'a::comm_monoid_add list"
  shows "i < length xs \<Longrightarrow> sum_list (xs[i := xs ! i + d]) = sum_list xs + d"
proof (induction xs arbitrary: i)
  case Nil
  then show ?case by simp
next
  case (Cons x xs)
  then show ?case by (cases i) (simp_all add: ac_simps)
qed

lemma store_score_one:
  "store_score h iv s = (h', iv') \<Longrightarrow> one_incremented h iv h' iv'"
proof -
  assume a: "store_score h iv s = (h', iv')"
  show ?thesis
  proof (cases "sint s < 0")
    case True
    with a show ?thesis by (simp add: store_score_def one_incremented_def)
  next
    case neg: False
    show ?thesis
    proof (cases "int MAX_SCORE < sint s")
      case True
      with neg a have "iv' = iv" "h' = h[MAX_SCORE := h ! MAX_SCORE + 1]"
        by (simp_all add: store_score_def)
      then show ?thesis unfolding one_incremented_def by blast
    next
      case False
      with neg a have "iv' = iv" "h' = h[nat (sint s) := h ! nat (sint s) + 1]"
        by (simp_all add: store_score_def)
      moreover from neg False have "nat (sint s) \<le> MAX_SCORE" by simp
      ultimately show ?thesis unfolding one_incremented_def by blast
    qed
  qed
qed

lemma store_score_length:
  "store_score h iv s = (h', iv') \<Longrightarrow> length h' = length h"
  unfolding store_score_def by (auto split: if_splits)

lemma one_incremented_total:
  assumes "one_incremented h iv h' iv'" "length h = Suc MAX_SCORE"
  shows "sum_list h' + iv' = sum_list h + iv + 1"
proof -
  from assms(1) consider "iv' = iv + 1" "h' = h"
    | i where "iv' = iv" "i \<le> MAX_SCORE" "h' = h[i := h ! i + 1]"
    unfolding one_incremented_def by blast
  then show ?thesis
  proof cases
    case 1
    then show ?thesis by (simp add: ac_simps)
  next
    case 2
    with assms(2) have "sum_list h' = sum_list h + 1"
      by (simp add: sum_list_bump)
    with 2 show ?thesis by (simp add: ac_simps)
  qed
qed

lemma loop_body_skip: "classify b = None \<Longrightarrow> loop_body b st = st"
  by (simp add: loop_body_def)

lemma loop_body_Some:
  assumes "classify b = Some (a, c)"
  shows "count (loop_body b st) = count st + 1"
    and "store_score (score_count_in st) (invalid_in st) a =
           (score_count_in (loop_body b st), invalid_in (loop_body b st))"
    and "store_score (score_count_out st) (invalid_out st) c =
           (score_count_out (loop_body b st), invalid_out (loop_body b st))"
  using assms by (auto simp: loop_body_def split: prod.splits)

lemma read_loop_fold: "read_loop stdin st = fold loop_body (buffers stdin) st"
proof (induction stdin st rule: read_loop.induct)
  case (1 stdin st)
  show ?case
  proof (cases "fgets 24 stdin")
    case None
    have "read_loop stdin st = st"
      by (subst read_loop.simps) (simp add: None)
    moreover have "buffers stdin = []"
      by (subst buffers.simps) (simp add: None)
    ultimately show ?thesis by simp
  next
    case (Some p)
    obtain line_buf rest where p: "p = (line_buf, rest)" by (cases p)
    from Some p have f: "fgets 24 stdin = Some (line_buf, rest)" by simp
    have "read_loop stdin st = read_loop rest (loop_body line_buf st)"
      by (subst read_loop.simps) (simp add: f)
    moreover have "buffers stdin = line_buf # buffers rest"
      by (subst buffers.simps) (simp add: f)
    moreover have "read_loop rest (loop_body line_buf st) =
        fold loop_body (buffers rest) (loop_body line_buf st)"
      using f by (rule "1.IH") simp
    ultimately show ?thesis by simp
  qed
qed

lemma loop_body_lengths: "lengths_ok st \<Longrightarrow> lengths_ok (loop_body b st)"
proof (cases "classify b")
  case None
  assume "lengths_ok st"
  with None show ?thesis by (simp add: loop_body_skip)
next
  case (Some p)
  assume ok: "lengths_ok st"
  obtain a c where p: "p = (a, c)" by (cases p)
  from Some p have s: "classify b = Some (a, c)" by simp
  from loop_body_Some(2) [OF s, of st] loop_body_Some(3) [OF s, of st] ok
  show ?thesis
    unfolding lengths_ok_def by (auto dest!: store_score_length)
qed

lemma loop_body_totals:
  assumes "lengths_ok st"
  shows "sum_list (score_count_in (loop_body b st)) + invalid_in (loop_body b st) + count st =
           sum_list (score_count_in st) + invalid_in st + count (loop_body b st)"
    and "sum_list (score_count_out (loop_body b st)) + invalid_out (loop_body b st) + count st =
           sum_list (score_count_out st) + invalid_out st + count (loop_body b st)"
proof -
  show "sum_list (score_count_in (loop_body b st)) + invalid_in (loop_body b st) + count st =
           sum_list (score_count_in st) + invalid_in st + count (loop_body b st)"
  proof (cases "classify b")
    case None
    then show ?thesis by (simp add: loop_body_skip)
  next
    case (Some p)
    obtain a c where p: "p = (a, c)" by (cases p)
    from Some p have s: "classify b = Some (a, c)" by simp
    from assms have "length (score_count_in st) = Suc MAX_SCORE"
      by (simp add: lengths_ok_def)
    with one_incremented_total [OF store_score_one [OF loop_body_Some(2) [OF s, of st]]]
    show ?thesis by (simp add: loop_body_Some(1) [OF s] ac_simps)
  qed
  show "sum_list (score_count_out (loop_body b st)) + invalid_out (loop_body b st) + count st =
           sum_list (score_count_out st) + invalid_out st + count (loop_body b st)"
  proof (cases "classify b")
    case None
    then show ?thesis by (simp add: loop_body_skip)
  next
    case (Some p)
    obtain a c where p: "p = (a, c)" by (cases p)
    from Some p have s: "classify b = Some (a, c)" by simp
    from assms have "length (score_count_out st) = Suc MAX_SCORE"
      by (simp add: lengths_ok_def)
    with one_incremented_total [OF store_score_one [OF loop_body_Some(3) [OF s, of st]]]
    show ?thesis by (simp add: loop_body_Some(1) [OF s] ac_simps)
  qed
qed

lemma fold_loop_body_totals:
  "lengths_ok st \<Longrightarrow>
     lengths_ok (fold loop_body bs st) \<and>
     sum_list (score_count_in (fold loop_body bs st)) + invalid_in (fold loop_body bs st) + count st =
       sum_list (score_count_in st) + invalid_in st + count (fold loop_body bs st) \<and>
     sum_list (score_count_out (fold loop_body bs st)) + invalid_out (fold loop_body bs st) + count st =
       sum_list (score_count_out st) + invalid_out st + count (fold loop_body bs st)"
proof (induction bs arbitrary: st)
  case Nil
  then show ?case by simp
next
  case (Cons b bs)
  from Cons.prems have ok: "lengths_ok (loop_body b st)" by (rule loop_body_lengths)
  from Cons.IH [OF ok] loop_body_totals [OF Cons.prems, of b]
  have a: "\<And>s2 s1 s0 c0 c1 c2 :: c_int.
      s2 + c1 = s1 + c2 \<Longrightarrow> s1 + c0 = s0 + c1 \<Longrightarrow> s2 + c0 = s0 + c2"
  proof -
    fix s2 s1 s0 c0 c1 c2 :: c_int
    assume "s2 + c1 = s1 + c2" "s1 + c0 = s0 + c1"
    then have "(s2 + c1) + (s1 + c0) = (s1 + c2) + (s0 + c1)" by simp
    then have "(s2 + c0) + (s1 + c1) = (s0 + c2) + (s1 + c1)" by (simp add: ac_simps)
    then show "s2 + c0 = s0 + c2" by simp
  qed
  let ?st1 = "loop_body b st" and ?st2 = "fold loop_body bs (loop_body b st)"
  from Cons.IH [OF ok] have ok2: "lengths_ok ?st2"
    and i2: "sum_list (score_count_in ?st2) + invalid_in ?st2 + count ?st1 =
       sum_list (score_count_in ?st1) + invalid_in ?st1 + count ?st2"
    and o2: "sum_list (score_count_out ?st2) + invalid_out ?st2 + count ?st1 =
       sum_list (score_count_out ?st1) + invalid_out ?st1 + count ?st2"
    by simp_all
  note i1 = loop_body_totals(1) [OF Cons.prems, of b]
  note o1 = loop_body_totals(2) [OF Cons.prems, of b]
  have "sum_list (score_count_in ?st2) + invalid_in ?st2 + count st =
       sum_list (score_count_in st) + invalid_in st + count ?st2"
    by (rule a [OF i2 i1])
  moreover have "sum_list (score_count_out ?st2) + invalid_out ?st2 + count st =
       sum_list (score_count_out st) + invalid_out st + count ?st2"
    by (rule a [OF o2 o1])
  ultimately show ?case using ok2 by simp
qed

lemma sint_add_no_wrap:
  fixes a b :: c_int
  assumes "- (2 ^ 31) \<le> sint a + sint b" "sint a + sint b < 2 ^ 31"
  shows "sint (a + b) = sint a + sint b"
  using assms by (simp add: sint_word_add signed_take_bit_int_eq_self)

lemma sint_succ:
  fixes a :: c_int
  assumes "0 \<le> sint a" "sint a < 2 ^ 31 - 1"
  shows "sint (a + 1) = sint a + 1"
  using assms sint_add_no_wrap [of a 1] by simp

lemma hist_sum_update:
  "i < length h \<Longrightarrow> hist_sum (h[i := v]) = hist_sum h - sint (h ! i) + sint v"
  unfolding hist_sum_def
proof (induction h arbitrary: i)
  case Nil
  then show ?case by simp
next
  case (Cons x xs)
  then show ?case by (cases i) simp_all
qed

lemma hist_sum_nonneg: "(\<forall>c\<in>set h. 0 \<le> sint c) \<Longrightarrow> 0 \<le> hist_sum h"
  unfolding hist_sum_def by (induction h) simp_all

lemma nth_le_hist_sum:
  "(\<forall>c\<in>set h. 0 \<le> sint c) \<Longrightarrow> i < length h \<Longrightarrow> sint (h ! i) \<le> hist_sum h"
proof (induction h arbitrary: i)
  case Nil
  then show ?case by simp
next
  case (Cons x xs)
  show ?case
  proof (cases i)
    case 0
    from Cons.prems(1) have "0 \<le> hist_sum xs" by (simp add: hist_sum_nonneg)
    with 0 show ?thesis by (simp add: hist_sum_def)
  next
    case (Suc j)
    from Cons.prems Suc have "sint (xs ! j) \<le> hist_sum xs" by (simp add: Cons.IH)
    moreover from Cons.prems(1) have "0 \<le> sint x" by simp
    ultimately show ?thesis using Suc by (simp add: hist_sum_def)
  qed
qed

lemma side_ok_step:
  assumes inc: "one_incremented h iv h' iv'"
    and ok: "side_ok h iv n"
    and room: "0 \<le> sint n" "sint n < 2 ^ 31 - 1"
  shows "side_ok h' iv' (n + 1)"
proof -
  from ok have len: "length h = Suc MAX_SCORE" and nn: "\<forall>c\<in>set h. 0 \<le> sint c"
    and ivnn: "0 \<le> sint iv" and tot: "hist_sum h + sint iv = sint n"
    by (simp_all add: side_ok_def)
  have t1: "sint (n + 1) = sint n + 1" using room by (rule sint_succ)
  from inc consider "iv' = iv + 1" "h' = h"
    | i where "iv' = iv" "i \<le> MAX_SCORE" "h' = h[i := h ! i + 1]"
    unfolding one_incremented_def by blast
  then show ?thesis
  proof cases
    case 1
    from nn have "0 \<le> hist_sum h" by (rule hist_sum_nonneg)
    with tot room have "sint iv < 2 ^ 31 - 1" by simp
    with ivnn have "sint (iv + 1) = sint iv + 1" by (rule sint_succ)
    with 1 len nn ivnn tot t1 show ?thesis by (simp add: side_ok_def)
  next
    case 2
    from 2 len have il: "i < length h" by simp
    with nn have b0: "0 \<le> sint (h ! i)" by simp
    from nn il have "sint (h ! i) \<le> hist_sum h" by (rule nth_le_hist_sum)
    with tot ivnn room have "sint (h ! i) < 2 ^ 31 - 1" by simp
    with b0 have s: "sint (h ! i + 1) = sint (h ! i) + 1" by (rule sint_succ)
    from il have "hist_sum h' = hist_sum h + 1"
      unfolding 2 by (simp add: hist_sum_update s)
    moreover have "\<forall>c\<in>set h'. 0 \<le> sint c"
    proof
      fix c assume "c \<in> set h'"
      then have "c \<in> insert (h ! i + 1) (set h)"
        unfolding 2 using set_update_subset_insert by fast
      with nn s b0 show "0 \<le> sint c" by auto
    qed
    ultimately show ?thesis using 2 len ivnn tot t1 by (simp add: side_ok_def)
  qed
qed

lemma loop_body_ok:
  assumes "scores_ok st" "0 \<le> sint (count st)" "sint (count st) < 2 ^ 31 - 1"
    and "classify b \<noteq> None"
  shows "scores_ok (loop_body b st) \<and> sint (count (loop_body b st)) = sint (count st) + 1"
proof -
  from assms(4) obtain a c where s: "classify b = Some (a, c)" by auto
  note i = store_score_one [OF loop_body_Some(2) [OF s, of st]]
  note out = store_score_one [OF loop_body_Some(3) [OF s, of st]]
  from assms(1) have "side_ok (score_count_in st) (invalid_in st) (count st)"
    and "side_ok (score_count_out st) (invalid_out st) (count st)"
    by (simp_all add: scores_ok_def)
  with i out assms(2,3) have "scores_ok (loop_body b st)"
    unfolding scores_ok_def loop_body_Some(1) [OF s] by (simp add: side_ok_step)
  moreover have "sint (count (loop_body b st)) = sint (count st) + 1"
    unfolding loop_body_Some(1) [OF s] using assms(2,3) by (rule sint_succ)
  ultimately show ?thesis by simp
qed

lemma fold_loop_body_ok:
  assumes "scores_ok st" "0 \<le> sint (count st)"
    and "sint (count st) + int (length (filter (\<lambda>b. classify b \<noteq> None) bs)) < 2 ^ 31"
  shows "scores_ok (fold loop_body bs st) \<and>
         sint (count (fold loop_body bs st)) =
           sint (count st) + int (length (filter (\<lambda>b. classify b \<noteq> None) bs))"
  using assms
proof (induction bs arbitrary: st)
  case Nil
  then show ?case by simp
next
  case (Cons b bs)
  show ?case
  proof (cases "classify b")
    case None
    with Cons.prems Cons.IH [of st] show ?thesis by (simp add: loop_body_skip)
  next
    case (Some p)
    then have c: "classify b \<noteq> None" by simp
    from Cons.prems(3) c have "sint (count st) < 2 ^ 31 - 1" by simp
    from loop_body_ok [OF Cons.prems(1,2) this c]
    have ok: "scores_ok (loop_body b st)"
      and cnt: "sint (count (loop_body b st)) = sint (count st) + 1" by simp_all
    from cnt Cons.prems(2) have nn: "0 \<le> sint (count (loop_body b st))" by simp
    from cnt Cons.prems(3) c
    have "sint (count (loop_body b st)) + int (length (filter (\<lambda>b. classify b \<noteq> None) bs))
        < 2 ^ 31" by simp
    from Cons.IH [OF ok nn this] cnt c show ?thesis by simp
  qed
qed

lemmas scan_defs = classify_def sscanf_d_d_def sscanf_d_def sscanf_minus_d_def conv_d_def
  c_string_def isspace_def isdigit_def strtol_def decimal_def digit_value_def

lemma length_empty_hist: "length empty_hist = Suc MAX_SCORE"
  by (simp add: empty_hist_def)

lemma nth_empty_hist: "i \<le> MAX_SCORE \<Longrightarrow> empty_hist ! i = 0"
  unfolding empty_hist_def by (rule nth_replicate) simp

lemma in_empty_hist: "c \<in> set empty_hist \<Longrightarrow> c = 0"
  unfolding empty_hist_def by auto

lemma sum_list_empty_hist: "sum_list empty_hist = 0"
  by (simp add: empty_hist_def sum_list_replicate)

lemma hist_sum_empty_hist: "hist_sum empty_hist = 0"
  unfolding hist_sum_def empty_hist_def by (simp add: sum_list_replicate)

lemma lengths_ok_initial: "lengths_ok (initial_scores\<lparr>count := 0\<rparr>)"
  by (simp add: lengths_ok_def initial_scores_def length_empty_hist)

lemma scores_ok_initial: "scores_ok (initial_scores\<lparr>count := 0\<rparr>)"
  by (auto simp: scores_ok_def side_ok_def initial_scores_def length_empty_hist
      hist_sum_empty_hist dest: in_empty_hist)

text \<open>
  Claim C1. A buffer that classifies adds one to the count of lines and, on each side, one
  to either the invalid counter or a single bucket. So when \<^verbatim>\<open>read_in_scores\<close> returns,
  the buckets of a side and its invalid counter add up to the count it returns: as
  \<^verbatim>\<open>int\<close> values for every input, and as integers while fewer than \<open>2 ^ 31\<close> lines have
  been counted. A line with both scores invalid, such as \<^verbatim>\<open>-1 -1\<close>, is counted once.
\<close>

theorem read_in_scores_totals:
  "(classify line_buf \<noteq> None \<longrightarrow>
      count (loop_body line_buf st) = count st + 1 \<and>
      one_incremented (score_count_in st) (invalid_in st)
        (score_count_in (loop_body line_buf st)) (invalid_in (loop_body line_buf st)) \<and>
      one_incremented (score_count_out st) (invalid_out st)
        (score_count_out (loop_body line_buf st)) (invalid_out (loop_body line_buf st))) \<and>
   sum_list (score_count_in (read_in_scores stdin initial_scores))
     + invalid_in (read_in_scores stdin initial_scores)
     = count (read_in_scores stdin initial_scores) \<and>
   sum_list (score_count_out (read_in_scores stdin initial_scores))
     + invalid_out (read_in_scores stdin initial_scores)
     = count (read_in_scores stdin initial_scores) \<and>
   (classified stdin < 2 ^ 31 \<longrightarrow>
      sint (count (read_in_scores stdin initial_scores)) = int (classified stdin) \<and>
      hist_sum (score_count_in (read_in_scores stdin initial_scores))
        + sint (invalid_in (read_in_scores stdin initial_scores)) = int (classified stdin) \<and>
      hist_sum (score_count_out (read_in_scores stdin initial_scores))
        + sint (invalid_out (read_in_scores stdin initial_scores)) = int (classified stdin))"
proof -
  let ?st0 = "initial_scores\<lparr>count := 0\<rparr>"
  let ?r = "read_in_scores stdin initial_scores"
  have r: "?r = fold loop_body (buffers stdin) ?st0"
    by (simp add: read_in_scores_def read_loop_fold)
  have step: "classify line_buf \<noteq> None \<longrightarrow>
      count (loop_body line_buf st) = count st + 1 \<and>
      one_incremented (score_count_in st) (invalid_in st)
        (score_count_in (loop_body line_buf st)) (invalid_in (loop_body line_buf st)) \<and>
      one_incremented (score_count_out st) (invalid_out st)
        (score_count_out (loop_body line_buf st)) (invalid_out (loop_body line_buf st))"
  proof
    assume "classify line_buf \<noteq> None"
    then obtain a c where s: "classify line_buf = Some (a, c)" by auto
    from loop_body_Some(1) [OF s, of st]
      store_score_one [OF loop_body_Some(2) [OF s, of st]]
      store_score_one [OF loop_body_Some(3) [OF s, of st]]
    show "count (loop_body line_buf st) = count st + 1 \<and>
      one_incremented (score_count_in st) (invalid_in st)
        (score_count_in (loop_body line_buf st)) (invalid_in (loop_body line_buf st)) \<and>
      one_incremented (score_count_out st) (invalid_out st)
        (score_count_out (loop_body line_buf st)) (invalid_out (loop_body line_buf st))"
      by simp
  qed
  from fold_loop_body_totals [OF lengths_ok_initial, of "buffers stdin"]
  have words: "sum_list (score_count_in ?r) + invalid_in ?r = count ?r"
    "sum_list (score_count_out ?r) + invalid_out ?r = count ?r"
    unfolding r [symmetric] by (simp_all add: initial_scores_def sum_list_empty_hist)
  have ints: "classified stdin < 2 ^ 31 \<longrightarrow>
      sint (count ?r) = int (classified stdin) \<and>
      hist_sum (score_count_in ?r) + sint (invalid_in ?r) = int (classified stdin) \<and>
      hist_sum (score_count_out ?r) + sint (invalid_out ?r) = int (classified stdin)"
  proof
    assume "classified stdin < 2 ^ 31"
    then have "sint (count ?st0) + int (length (filter (\<lambda>b. classify b \<noteq> None) (buffers stdin)))
        < 2 ^ 31"
      by (simp add: classified_def)
    from fold_loop_body_ok [OF scores_ok_initial _ this]
    have "scores_ok ?r" and "sint (count ?r) = int (classified stdin)"
      unfolding r [symmetric] by (simp_all add: classified_def)
    then show "sint (count ?r) = int (classified stdin) \<and>
      hist_sum (score_count_in ?r) + sint (invalid_in ?r) = int (classified stdin) \<and>
      hist_sum (score_count_out ?r) + sint (invalid_out ?r) = int (classified stdin)"
      by (simp add: scores_ok_def side_ok_def)
  qed
  from step words ints show ?thesis by blast
qed

lemma classify_both_invalid: "classify ''-1 -1'' = Some (- 1, - 1)"
  by (simp add: scan_defs)

lemma buffers_one_line:
  "buffers (''-1 -1'' @ [CHR 0x0A]) = [''-1 -1'' @ [CHR 0x0A]]"
  by (simp add: buffers.simps fgets_def eval_nat_numeral)

theorem read_in_scores_totals_witness:
  "classify ''-1 -1'' \<noteq> None \<and>
   count (loop_body ''-1 -1'' initial_scores) = 1 \<and>
   invalid_in (loop_body ''-1 -1'' initial_scores) = 1 \<and>
   invalid_out (loop_body ''-1 -1'' initial_scores) = 1 \<and>
   score_count_in (loop_body ''-1 -1'' initial_scores) = empty_hist \<and>
   score_count_out (loop_body ''-1 -1'' initial_scores) = empty_hist \<and>
   classified (''-1 -1'' @ [CHR 0x0A]) = 1 \<and>
   sint (count (read_in_scores (''-1 -1'' @ [CHR 0x0A]) initial_scores)) = 1 \<and>
   hist_sum (score_count_in (read_in_scores (''-1 -1'' @ [CHR 0x0A]) initial_scores))
     + sint (invalid_in (read_in_scores (''-1 -1'' @ [CHR 0x0A]) initial_scores)) = 1"
proof -
  note t = read_in_scores_totals [where line_buf = "''-1 -1''" and st = initial_scores
      and stdin = "''-1 -1'' @ [CHR 0x0A]"]
  have c: "classify ''-1 -1'' \<noteq> None" by (simp add: classify_both_invalid)
  have n: "classified (''-1 -1'' @ [CHR 0x0A]) = 1"
    unfolding classified_def buffers_one_line by (simp add: scan_defs)
  from t c have "count (loop_body ''-1 -1'' initial_scores) = count initial_scores + 1"
    by blast
  then have c1: "count (loop_body ''-1 -1'' initial_scores) = 1"
    by (simp add: initial_scores_def)
  have others: "invalid_in (loop_body ''-1 -1'' initial_scores) = 1"
    "invalid_out (loop_body ''-1 -1'' initial_scores) = 1"
    "score_count_in (loop_body ''-1 -1'' initial_scores) = empty_hist"
    "score_count_out (loop_body ''-1 -1'' initial_scores) = empty_hist"
    by (simp_all add: loop_body_def classify_both_invalid store_score_def initial_scores_def)
  from t n have "sint (count (read_in_scores (''-1 -1'' @ [CHR 0x0A]) initial_scores)) = 1"
    "hist_sum (score_count_in (read_in_scores (''-1 -1'' @ [CHR 0x0A]) initial_scores))
     + sint (invalid_in (read_in_scores (''-1 -1'' @ [CHR 0x0A]) initial_scores)) = 1"
    by simp_all
  with c c1 others n show ?thesis by simp
qed

subsection \<open>Out-of-range scores\<close>

text \<open>
  Claim C9. On a classified line, for each side on its own: a score above \<open>MAX_SCORE\<close>
  adds one to the bucket \<open>MAX_SCORE\<close> and leaves the invalid counter alone, so the line
  is neither dropped nor an error (the count of lines goes up); a score below 0 adds one to
  the invalid counter of that side and changes no bucket. The score 70000 lands in bucket
  65536.
\<close>

theorem store_score_clamps:
  assumes "classify line_buf = Some (score_in, score_out)"
  shows "count (loop_body line_buf st) = count st + 1 \<and>
    (int MAX_SCORE < sint score_in \<longrightarrow>
       score_count_in (loop_body line_buf st) =
         (score_count_in st)[MAX_SCORE := score_count_in st ! MAX_SCORE + 1] \<and>
       invalid_in (loop_body line_buf st) = invalid_in st) \<and>
    (sint score_in < 0 \<longrightarrow>
       invalid_in (loop_body line_buf st) = invalid_in st + 1 \<and>
       score_count_in (loop_body line_buf st) = score_count_in st) \<and>
    (int MAX_SCORE < sint score_out \<longrightarrow>
       score_count_out (loop_body line_buf st) =
         (score_count_out st)[MAX_SCORE := score_count_out st ! MAX_SCORE + 1] \<and>
       invalid_out (loop_body line_buf st) = invalid_out st) \<and>
    (sint score_out < 0 \<longrightarrow>
       invalid_out (loop_body line_buf st) = invalid_out st + 1 \<and>
       score_count_out (loop_body line_buf st) = score_count_out st)"
proof -
  note c = loop_body_Some(1) [OF assms, of st]
  note i = loop_body_Some(2) [OF assms, of st, symmetric]
  note out = loop_body_Some(3) [OF assms, of st, symmetric]
  have a: "\<And>h iv s h' iv'. (h', iv') = store_score h iv s \<Longrightarrow>
      (int MAX_SCORE < sint s \<longrightarrow> h' = h[MAX_SCORE := h ! MAX_SCORE + 1] \<and> iv' = iv) \<and>
      (sint s < 0 \<longrightarrow> iv' = iv + 1 \<and> h' = h)"
    by (auto simp: store_score_def MAX_SCORE_def)
  from c a [OF i] a [OF out] show ?thesis by blast
qed

lemma classify_clamped: "classify ''70000 -3'' = Some (70000, - 3)"
  by (simp add: scan_defs)

theorem store_score_clamps_witness:
  "classify ''70000 -3'' = Some (70000, - 3) \<and>
   count (loop_body ''70000 -3'' initial_scores) = 1 \<and>
   score_count_in (loop_body ''70000 -3'' initial_scores) = empty_hist[MAX_SCORE := 1] \<and>
   score_count_in (loop_body ''70000 -3'' initial_scores) ! 65536 = 1 \<and>
   invalid_in (loop_body ''70000 -3'' initial_scores) = 0 \<and>
   invalid_out (loop_body ''70000 -3'' initial_scores) = 1 \<and>
   score_count_out (loop_body ''70000 -3'' initial_scores) = empty_hist"
proof -
  note t = store_score_clamps [OF classify_clamped, of initial_scores]
  have "int MAX_SCORE < sint (70000 :: c_int)" "sint (- 3 :: c_int) < 0"
    by (simp_all add: MAX_SCORE_def)
  with t have "count (loop_body ''70000 -3'' initial_scores) = count initial_scores + 1"
    "score_count_in (loop_body ''70000 -3'' initial_scores) =
       (score_count_in initial_scores)[MAX_SCORE := score_count_in initial_scores ! MAX_SCORE + 1]"
    "invalid_in (loop_body ''70000 -3'' initial_scores) = invalid_in initial_scores"
    "invalid_out (loop_body ''70000 -3'' initial_scores) = invalid_out initial_scores + 1"
    "score_count_out (loop_body ''70000 -3'' initial_scores) = score_count_out initial_scores"
    by blast+
  then have r: "count (loop_body ''70000 -3'' initial_scores) = 1"
    "score_count_in (loop_body ''70000 -3'' initial_scores) = empty_hist[MAX_SCORE := 1]"
    "invalid_in (loop_body ''70000 -3'' initial_scores) = 0"
    "invalid_out (loop_body ''70000 -3'' initial_scores) = 1"
    "score_count_out (loop_body ''70000 -3'' initial_scores) = empty_hist"
    by (simp_all add: initial_scores_def nth_empty_hist)
  have "(empty_hist[MAX_SCORE := 1 :: c_int]) ! 65536 = 1"
    by (simp add: length_empty_hist MAX_SCORE_def)
  with r classify_clamped show ?thesis by simp
qed

subsection \<open>Classification of a line\<close>

lemma isdigit_not_special:
  "isdigit c \<Longrightarrow> \<not> isspace c \<and> c \<noteq> CHR ''-'' \<and> c \<noteq> CHR ''+'' \<and> c \<noteq> CHR 0x00"
  by (auto simp: isdigit_def isspace_def)

lemma isspace_not_special:
  "isspace c \<Longrightarrow> c \<noteq> CHR ''-'' \<and> c \<noteq> CHR ''+'' \<and> c \<noteq> CHR 0x00"
  by (auto simp: isspace_def)

lemma dropWhile_spaces:
  assumes "spaces sp" "s = [] \<or> \<not> isspace (hd s)"
  shows "dropWhile isspace (sp @ s) = s"
proof -
  from assms(1) have "dropWhile isspace (sp @ s) = dropWhile isspace s"
    by (simp add: spaces_def dropWhile_append2)
  also from assms(2) have "dropWhile isspace s = s" by (cases s) auto
  finally show ?thesis .
qed

lemma digit_run:
  assumes "\<forall>c\<in>set ds. isdigit c" "ends_number r"
  shows "takeWhile isdigit (ds @ r) = ds" and "dropWhile isdigit (ds @ r) = r"
proof -
  from assms(2) have t: "takeWhile isdigit r = []" and d: "dropWhile isdigit r = r"
    by (cases r; simp add: ends_number_def)+
  from assms(1) show "takeWhile isdigit (ds @ r) = ds"
    by (simp add: takeWhile_append2 t)
  from assms(1) show "dropWhile isdigit (ds @ r) = r"
    by (simp add: dropWhile_append2 d)
qed

lemma conv_d_form:
  assumes "spaces sp" "is_sign sg" "digits ds" "ends_number r"
  shows "conv_d (sp @ sg @ ds @ r) = Inr (scanned_value sg ds, r)"
proof -
  from assms(3) obtain d ds' where ds: "ds = d # ds'" and d: "isdigit d"
    and all: "\<forall>c\<in>set ds. isdigit c"
    by (cases ds) (auto simp: digits_def)
  note run = digit_run [OF all assms(4)]
  from assms(2) consider "sg = []" | "sg = ''-''" | "sg = ''+''"
    by (auto simp: is_sign_def)
  then show ?thesis
  proof cases
    case 1
    from d have "\<not> isspace (hd (sg @ ds @ r))" by (simp add: 1 ds isdigit_not_special)
    with assms(1) have "dropWhile isspace (sp @ sg @ ds @ r) = d # (ds' @ r)"
      by (simp add: dropWhile_spaces 1 ds)
    moreover have "takeWhile isdigit (d # (ds' @ r)) = ds" "dropWhile isdigit (d # (ds' @ r)) = r"
      using run by (simp_all add: ds)
    ultimately show ?thesis
      using d isdigit_not_special [OF d] by (simp add: conv_d_def scanned_value_def 1 ds)
  next
    case 2
    have "\<not> isspace (hd (sg @ ds @ r))" by (simp add: 2 isspace_def)
    with assms(1) have "dropWhile isspace (sp @ sg @ ds @ r) = CHR ''-'' # (ds @ r)"
      by (simp add: dropWhile_spaces 2)
    with run show ?thesis
      using assms(3) by (simp add: conv_d_def scanned_value_def 2 digits_def)
  next
    case 3
    have "\<not> isspace (hd (sg @ ds @ r))" by (simp add: 3 isspace_def)
    with assms(1) have "dropWhile isspace (sp @ sg @ ds @ r) = CHR ''+'' # (ds @ r)"
      by (simp add: dropWhile_spaces 3)
    with run show ?thesis
      using assms(3) by (simp add: conv_d_def scanned_value_def 3 digits_def)
  qed
qed

lemma conv_d_complete:
  assumes "conv_d s = Inr (v, r)"
  shows "\<exists>sp sg ds. s = sp @ sg @ ds @ r \<and> spaces sp \<and> is_sign sg \<and> digits ds \<and>
           ends_number r \<and> v = scanned_value sg ds"
proof -
  let ?sp = "takeWhile isspace s"
  from assms obtain c cs where dw: "dropWhile isspace s = c # cs"
    by (cases "dropWhile isspace s") (auto simp: conv_d_def)
  let ?sg = "if c = CHR ''-'' \<or> c = CHR ''+'' then [c] else []"
  let ?body = "if c = CHR ''-'' \<or> c = CHR ''+'' then cs else c # cs"
  let ?ds = "takeWhile isdigit ?body"
  from assms dw have ne: "?ds \<noteq> []" and v: "v = word_of_int (strtol (c = CHR ''-'') ?ds)"
    and r: "r = dropWhile isdigit ?body"
    by (auto simp: conv_d_def Let_def split: if_splits)
  have "s = ?sp @ dropWhile isspace s" by simp
  also have "dropWhile isspace s = ?sg @ ?body" by (simp add: dw)
  also have "?body = ?ds @ r" by (simp add: r)
  finally have "s = ?sp @ ?sg @ ?ds @ r" .
  moreover have "spaces ?sp" by (auto simp: spaces_def dest: set_takeWhileD)
  moreover have "is_sign ?sg" by (auto simp: is_sign_def)
  moreover have "digits ?ds" using ne by (auto simp: digits_def dest: set_takeWhileD)
  moreover have "ends_number r"
    unfolding r ends_number_def using hd_dropWhile [of isdigit ?body] by blast
  moreover have "v = scanned_value ?sg ?ds" by (auto simp: v scanned_value_def)
  ultimately show ?thesis by blast
qed

lemma starts_with_int_iff: "starts_with_int s \<longleftrightarrow> (\<exists>v r. conv_d s = Inr (v, r))"
proof
  assume "starts_with_int s"
  then obtain sp sg ds rest where s: "s = sp @ sg @ ds @ rest"
    and f: "spaces sp" "is_sign sg" "digits ds"
    unfolding starts_with_int_def by blast
  let ?ds = "ds @ takeWhile isdigit rest" and ?r = "dropWhile isdigit rest"
  have "s = sp @ sg @ ?ds @ ?r" by (simp add: s)
  moreover from f(3) have "digits ?ds" by (auto simp: digits_def dest: set_takeWhileD)
  moreover have "ends_number ?r"
    unfolding ends_number_def using hd_dropWhile [of isdigit rest] by blast
  ultimately have "conv_d s = Inr (scanned_value sg ?ds, ?r)"
    using f(1,2) conv_d_form by metis
  then show "\<exists>v r. conv_d s = Inr (v, r)" by blast
next
  assume "\<exists>v r. conv_d s = Inr (v, r)"
  then obtain v r where "conv_d s = Inr (v, r)" by blast
  from conv_d_complete [OF this] show "starts_with_int s"
    unfolding starts_with_int_def by blast
qed

lemma not_starts_with_int: "\<not> starts_with_int s \<longleftrightarrow> (\<exists>e. conv_d s = Inl e)"
  unfolding starts_with_int_iff by (cases "conv_d s") auto

lemma c_string_append:
  "\<forall>c\<in>set p. c \<noteq> CHR 0x00 \<Longrightarrow> c_string (p @ s) = p @ c_string s"
  by (simp add: c_string_def takeWhile_append2)

lemma no_nul:
  "spaces sp \<Longrightarrow> \<forall>c\<in>set sp. c \<noteq> CHR 0x00"
  "is_sign sg \<Longrightarrow> \<forall>c\<in>set sg. c \<noteq> CHR 0x00"
  "digits ds \<Longrightarrow> \<forall>c\<in>set ds. c \<noteq> CHR 0x00"
  by (auto simp: spaces_def is_sign_def digits_def dest: isspace_not_special isdigit_not_special)

lemma c_string_form:
  assumes "spaces sp" "is_sign sg" "digits ds"
  shows "c_string (sp @ sg @ ds @ r) = sp @ sg @ ds @ c_string r"
  using assms by (simp add: c_string_append no_nul)

lemma ends_number_c_string: "ends_number r \<Longrightarrow> ends_number (c_string r)"
  by (cases r) (auto simp: ends_number_def c_string_def)

lemma c_string_split: "s = c_string s @ dropWhile (\<lambda>c. c \<noteq> CHR 0x00) s"
  by (simp add: c_string_def)

lemma starts_with_int_c_string: "starts_with_int (c_string s) \<longleftrightarrow> starts_with_int s"
proof
  assume "starts_with_int (c_string s)"
  then obtain sp sg ds rest where "c_string s = sp @ sg @ ds @ rest"
    and f: "spaces sp" "is_sign sg" "digits ds"
    unfolding starts_with_int_def by blast
  with c_string_split [of s]
  have "s = sp @ sg @ ds @ (rest @ dropWhile (\<lambda>c. c \<noteq> CHR 0x00) s)" by simp
  with f show "starts_with_int s" unfolding starts_with_int_def by blast
next
  assume "starts_with_int s"
  then obtain sp sg ds rest where "s = sp @ sg @ ds @ rest"
    and f: "spaces sp" "is_sign sg" "digits ds"
    unfolding starts_with_int_def by blast
  then have "c_string s = sp @ sg @ ds @ c_string rest" by (simp add: c_string_form)
  with f show "starts_with_int (c_string s)" unfolding starts_with_int_def by blast
qed

lemma scanned_value_in_range:
  assumes "in_int_range (int_value sg ds)"
  shows "scanned_value sg ds = word_of_int (int_value sg ds)"
    and "sint (scanned_value sg ds) = int_value sg ds"
proof -
  from assms have "strtol (sg = ''-'') ds = int_value sg ds"
    by (auto simp: strtol_def int_value_def in_int_range_def)
  then show w: "scanned_value sg ds = word_of_int (int_value sg ds)"
    by (simp add: scanned_value_def)
  from assms show "sint (scanned_value sg ds) = int_value sg ds"
    unfolding w by (simp add: sint_sbintrunc' signed_take_bit_int_eq_self in_int_range_def)
qed

lemma classify_two:
  assumes "conv_d (c_string line) = Inr (a, r)" "conv_d r = Inr (b, r')"
  shows "classify line = Some (a, b)"
  using assms by (simp add: classify_def sscanf_d_d_def)

lemma classify_one:
  assumes "conv_d (c_string line) = Inr (a, r)" "conv_d r = Inl e"
  shows "classify line = Some (a, - 1)"
  using assms by (simp add: classify_def sscanf_d_d_def sscanf_d_def)

lemma classify_minus:
  assumes "conv_d (c_string line) = Inl e" "c_string line = CHR ''-'' # cs"
    "conv_d cs = Inr (b, r)"
  shows "classify line = Some (- 1, b)"
  using assms
  by (cases e) (simp_all add: classify_def sscanf_d_d_def sscanf_d_def sscanf_minus_d_def)

lemma classify_none:
  assumes "conv_d (c_string line) = Inl e"
    "\<And>cs. c_string line = CHR ''-'' # cs \<Longrightarrow> \<exists>e'. conv_d cs = Inl e'"
  shows "classify line = None"
proof (cases "c_string line")
  case Nil
  with assms(1) show ?thesis
    by (cases e) (simp_all add: classify_def sscanf_d_d_def sscanf_d_def sscanf_minus_d_def)
next
  case (Cons c cs)
  show ?thesis
  proof (cases "c = CHR ''-''")
    case True
    with Cons assms(2) obtain e' where "conv_d cs = Inl e'" by blast
    with assms(1) Cons True show ?thesis
      by (cases e; cases e')
        (simp_all add: classify_def sscanf_d_d_def sscanf_d_def sscanf_minus_d_def)
  next
    case False
    with assms(1) Cons show ?thesis
      by (cases e) (simp_all add: classify_def sscanf_d_d_def sscanf_d_def sscanf_minus_d_def)
  qed
qed

lemma conv_d_after_minus:
  assumes "spaces sp" "is_sign sg" "digits ds" "sp \<noteq> [] \<or> sg \<noteq> []"
  shows "conv_d (CHR ''-'' # sp @ sg @ ds @ rest) = Inl MatchingFailure"
proof -
  from assms obtain c cs where b: "sp @ sg @ ds @ rest = c # cs" and c: "\<not> isdigit c"
  proof (cases sp)
    case Nil
    with assms(2,4) have "sg = ''-'' \<or> sg = ''+''" by (simp add: is_sign_def)
    then have "sp @ sg @ ds @ rest = hd sg # (ds @ rest)" "\<not> isdigit (hd sg)"
      using Nil by (auto simp: isdigit_def)
    then show ?thesis using that by blast
  next
    case (Cons x xs)
    with assms(1) have "isspace x" by (simp add: spaces_def)
    then have "\<not> isdigit x" using isdigit_not_special by blast
    with Cons show ?thesis using that by simp
  qed
  have "\<not> isspace (CHR ''-'')" by (simp add: isspace_def)
  then have "dropWhile isspace (CHR ''-'' # sp @ sg @ ds @ rest) = CHR ''-'' # c # cs"
    by (simp add: b)
  with c show ?thesis by (simp add: conv_d_def)
qed

lemma classify_cases:
  assumes "spaces sp1" "is_sign sg1" "digits ds1" "in_int_range (int_value sg1 ds1)"
    and "spaces sp2" "is_sign sg2" "digits ds2" "in_int_range (int_value sg2 ds2)"
    and "ends_number rest"
  shows "(sp2 \<noteq> [] \<or> sg2 \<noteq> [] \<longrightarrow>
           classify (sp1 @ sg1 @ ds1 @ sp2 @ sg2 @ ds2 @ rest) =
             Some (word_of_int (int_value sg1 ds1), word_of_int (int_value sg2 ds2))) \<and>
         (ends_number tail \<and> \<not> starts_with_int tail \<longrightarrow>
           classify (sp1 @ sg1 @ ds1 @ tail) = Some (word_of_int (int_value sg1 ds1), - 1)) \<and>
         (sp2 \<noteq> [] \<or> sg2 \<noteq> [] \<longrightarrow>
           classify (CHR ''-'' # sp2 @ sg2 @ ds2 @ rest) =
             Some (- 1, word_of_int (int_value sg2 ds2)))"
proof (intro conjI impI)
  assume sep: "sp2 \<noteq> [] \<or> sg2 \<noteq> []"
  let ?r1 = "sp2 @ sg2 @ ds2 @ c_string rest"
  have e1: "ends_number ?r1"
  proof (cases sp2)
    case Nil
    with sep assms(6) have "sg2 = ''-'' \<or> sg2 = ''+''" by (simp add: is_sign_def)
    with Nil show ?thesis by (auto simp: ends_number_def isdigit_def)
  next
    case (Cons x xs)
    with assms(5) have "isspace x" by (simp add: spaces_def)
    then have "\<not> isdigit x" using isdigit_not_special by blast
    with Cons show ?thesis by (simp add: ends_number_def)
  qed
  have "c_string (sp1 @ sg1 @ ds1 @ sp2 @ sg2 @ ds2 @ rest) = sp1 @ sg1 @ ds1 @ ?r1"
    using assms by (simp add: c_string_append no_nul)
  moreover have "conv_d (sp1 @ sg1 @ ds1 @ ?r1) = Inr (scanned_value sg1 ds1, ?r1)"
    using assms(1-3) e1 by (rule conv_d_form)
  moreover have "conv_d ?r1 = Inr (scanned_value sg2 ds2, c_string rest)"
    using assms(5-7) ends_number_c_string [OF assms(9)] by (rule conv_d_form)
  ultimately have "classify (sp1 @ sg1 @ ds1 @ sp2 @ sg2 @ ds2 @ rest) =
      Some (scanned_value sg1 ds1, scanned_value sg2 ds2)"
    by (simp add: classify_two)
  then show "classify (sp1 @ sg1 @ ds1 @ sp2 @ sg2 @ ds2 @ rest) =
      Some (word_of_int (int_value sg1 ds1), word_of_int (int_value sg2 ds2))"
    by (simp add: scanned_value_in_range(1) assms(4,8))
next
  assume t: "ends_number tail \<and> \<not> starts_with_int tail"
  have "c_string (sp1 @ sg1 @ ds1 @ tail) = sp1 @ sg1 @ ds1 @ c_string tail"
    using assms(1-3) by (rule c_string_form)
  moreover have "conv_d (sp1 @ sg1 @ ds1 @ c_string tail) =
      Inr (scanned_value sg1 ds1, c_string tail)"
    using assms(1-3) ends_number_c_string by (rule conv_d_form) (simp add: t)
  moreover from t obtain e where "conv_d (c_string tail) = Inl e"
    using not_starts_with_int starts_with_int_c_string by blast
  ultimately have "classify (sp1 @ sg1 @ ds1 @ tail) = Some (scanned_value sg1 ds1, - 1)"
    by (simp add: classify_one)
  then show "classify (sp1 @ sg1 @ ds1 @ tail) = Some (word_of_int (int_value sg1 ds1), - 1)"
    by (simp add: scanned_value_in_range(1) assms(4))
next
  assume sep: "sp2 \<noteq> [] \<or> sg2 \<noteq> []"
  have cs: "c_string (CHR ''-'' # sp2 @ sg2 @ ds2 @ rest) =
      CHR ''-'' # sp2 @ sg2 @ ds2 @ c_string rest"
  proof -
    have "c_string (CHR ''-'' # sp2 @ sg2 @ ds2 @ rest) =
        CHR ''-'' # c_string (sp2 @ sg2 @ ds2 @ rest)"
      by (simp add: c_string_def)
    then show ?thesis using assms(5-7) by (simp add: c_string_form)
  qed
  have "conv_d (CHR ''-'' # sp2 @ sg2 @ ds2 @ c_string rest) = Inl MatchingFailure"
    using assms(5-7) sep by (rule conv_d_after_minus)
  moreover have "conv_d (sp2 @ sg2 @ ds2 @ c_string rest) =
      Inr (scanned_value sg2 ds2, c_string rest)"
    using assms(5-7) ends_number_c_string [OF assms(9)] by (rule conv_d_form)
  ultimately have "classify (CHR ''-'' # sp2 @ sg2 @ ds2 @ rest) =
      Some (- 1, scanned_value sg2 ds2)"
    using cs by (simp add: classify_minus)
  then show "classify (CHR ''-'' # sp2 @ sg2 @ ds2 @ rest) =
      Some (- 1, word_of_int (int_value sg2 ds2))"
    by (simp add: scanned_value_in_range(1) assms(8))
qed

text \<open>
  Claim C2, as the code has it. The first attempt reads two integers and takes them as
  (inbound, outbound); the second integer may follow the first after white space or begin
  directly with its own sign. Failing that, a line that begins with an integer, followed by
  anything that does not itself begin with an integer, gives that integer as the inbound
  score and \<open>-1\<close> as the outbound score. Failing that too, a line that begins with
  \<^verbatim>\<open>-\<close> followed by an integer (after white space or a sign of its own) gives \<open>-1\<close> as
  the inbound score and that integer as the outbound score. The integers are those that
  fit an \<^verbatim>\<open>int\<close>.
\<close>

theorem classify_priority:
  "(spaces sp1 \<and> is_sign sg1 \<and> digits ds1 \<and> in_int_range (int_value sg1 ds1) \<and>
    spaces sp2 \<and> is_sign sg2 \<and> digits ds2 \<and> in_int_range (int_value sg2 ds2) \<and>
    (sp2 \<noteq> [] \<or> sg2 \<noteq> []) \<and> ends_number rest \<longrightarrow>
      classify (sp1 @ sg1 @ ds1 @ sp2 @ sg2 @ ds2 @ rest) =
        Some (word_of_int (int_value sg1 ds1), word_of_int (int_value sg2 ds2))) \<and>
   (spaces sp1 \<and> is_sign sg1 \<and> digits ds1 \<and> in_int_range (int_value sg1 ds1) \<and>
    ends_number tail \<and> \<not> starts_with_int tail \<longrightarrow>
      classify (sp1 @ sg1 @ ds1 @ tail) = Some (word_of_int (int_value sg1 ds1), - 1)) \<and>
   (spaces sp2 \<and> is_sign sg2 \<and> digits ds2 \<and> in_int_range (int_value sg2 ds2) \<and>
    (sp2 \<noteq> [] \<or> sg2 \<noteq> []) \<and> ends_number rest \<longrightarrow>
      classify (CHR ''-'' # sp2 @ sg2 @ ds2 @ rest) =
        Some (- 1, word_of_int (int_value sg2 ds2)))"
proof -
  have zero: "spaces []" "is_sign []" "digits ''0''" "in_int_range (int_value [] ''0'')"
    "ends_number []"
    by (simp_all add: spaces_def is_sign_def digits_def isdigit_def in_int_range_def
        int_value_def decimal_def digit_value_def ends_number_def)
  show ?thesis
  proof (intro conjI impI)
    assume "spaces sp1 \<and> is_sign sg1 \<and> digits ds1 \<and> in_int_range (int_value sg1 ds1) \<and>
      spaces sp2 \<and> is_sign sg2 \<and> digits ds2 \<and> in_int_range (int_value sg2 ds2) \<and>
      (sp2 \<noteq> [] \<or> sg2 \<noteq> []) \<and> ends_number rest"
    then show "classify (sp1 @ sg1 @ ds1 @ sp2 @ sg2 @ ds2 @ rest) =
        Some (word_of_int (int_value sg1 ds1), word_of_int (int_value sg2 ds2))"
      using classify_cases [of sp1 sg1 ds1 sp2 sg2 ds2 rest] by blast
  next
    assume "spaces sp1 \<and> is_sign sg1 \<and> digits ds1 \<and> in_int_range (int_value sg1 ds1) \<and>
      ends_number tail \<and> \<not> starts_with_int tail"
    then show "classify (sp1 @ sg1 @ ds1 @ tail) = Some (word_of_int (int_value sg1 ds1), - 1)"
      using classify_cases [of sp1 sg1 ds1 "[]" "[]" "''0''" "[]" tail] zero by blast
  next
    assume "spaces sp2 \<and> is_sign sg2 \<and> digits ds2 \<and> in_int_range (int_value sg2 ds2) \<and>
      (sp2 \<noteq> [] \<or> sg2 \<noteq> []) \<and> ends_number rest"
    then show "classify (CHR ''-'' # sp2 @ sg2 @ ds2 @ rest) =
        Some (- 1, word_of_int (int_value sg2 ds2))"
      using classify_cases [of "[]" "[]" "''0''" sp2 sg2 ds2 rest] zero by blast
  qed
qed

theorem classify_priority_witness:
  "classify ''5 7'' = Some (5, 7) \<and> classify ''5 -'' = Some (5, - 1) \<and>
   classify ''- 7'' = Some (- 1, 7)"
proof -
  have h: "spaces []" "is_sign []" "digits ''5''" "in_int_range (int_value [] ''5'')"
    "spaces '' ''" "digits ''7''" "in_int_range (int_value [] ''7'')" "ends_number []"
    "'' '' \<noteq> []"
    by (simp_all add: spaces_def is_sign_def digits_def in_int_range_def int_value_def
        decimal_def digit_value_def ends_number_def isspace_def isdigit_def)
  have "conv_d '' -'' = Inl MatchingFailure"
    by (simp add: conv_d_def isspace_def isdigit_def)
  then have t: "ends_number '' -''" "\<not> starts_with_int '' -''"
    by (simp_all add: not_starts_with_int ends_number_def isdigit_def)
  note c = classify_priority [where ?sp1.0 = "[]" and ?sg1.0 = "[]" and ?ds1.0 = "''5''"
      and ?sp2.0 = "'' ''" and ?sg2.0 = "[]" and ?ds2.0 = "''7''" and rest = "[]"
      and tail = "'' -''"]
  from c h t have "classify ([] @ [] @ ''5'' @ '' '' @ [] @ ''7'' @ []) =
      Some (word_of_int (int_value [] ''5''), word_of_int (int_value [] ''7''))"
    "classify ([] @ [] @ ''5'' @ '' -'') = Some (word_of_int (int_value [] ''5''), - 1)"
    "classify (CHR ''-'' # '' '' @ [] @ ''7'' @ []) = Some (- 1, word_of_int (int_value [] ''7''))"
    by blast+
  then show ?thesis
    by (simp add: int_value_def decimal_def digit_value_def)
qed

text \<open>
  The line \<^verbatim>\<open>5+3\<close> holds no white space, so it is not two integers separated by white
  space, and it begins with the integer 5; yet its outbound score is 3, not the invalid
  marker.
\<close>

theorem classify_priority_counterexample:
  "\<not> list_ex isspace ''5+3'' \<and> classify ''5+3'' = Some (5, 3) \<and>
   classify ''5+3'' \<noteq> Some (5, - 1)"
  by (simp add: scan_defs)

lemma c_string_Cons: "c \<noteq> CHR 0x00 \<Longrightarrow> c_string (c # s) = c # c_string s"
  by (simp add: c_string_def)

text \<open>
  Claim C3, as the code has it. A line is skipped exactly when it neither begins (after
  optional white space) with an integer nor is \<^verbatim>\<open>-\<close> followed by text that begins with an
  integer; a skipped line changes no bucket, no invalid counter and not the count. A line
  whose first token is an integer is accepted whatever follows: \<^verbatim>\<open>5 abc\<close> is read as
  inbound 5 with no outbound score.
\<close>

theorem malformed_line_ignored:
  "(classify line = None \<longleftrightarrow>
      \<not> starts_with_int line \<and>
      \<not> (\<exists>tail. line = CHR ''-'' # tail \<and> starts_with_int tail)) \<and>
   (classify line = None \<longrightarrow> loop_body line st = st) \<and>
   classify ''5 abc'' = Some (5, - 1)"
proof (intro conjI)
  show "classify line = None \<longleftrightarrow>
      \<not> starts_with_int line \<and>
      \<not> (\<exists>tail. line = CHR ''-'' # tail \<and> starts_with_int tail)"
  proof
    assume none: "classify line = None"
    have a: "\<not> starts_with_int line"
    proof
      assume "starts_with_int line"
      then have "starts_with_int (c_string line)" by (simp add: starts_with_int_c_string)
      then obtain a r where 1: "conv_d (c_string line) = Inr (a, r)"
        unfolding starts_with_int_iff by blast
      show False
      proof (cases "conv_d r")
        case (Inl e)
        with 1 none show False by (simp add: classify_one)
      next
        case (Inr p)
        then obtain b r' where "conv_d r = Inr (b, r')" by (cases p) simp
        with 1 none show False by (simp add: classify_two)
      qed
    qed
    have b: "\<not> (\<exists>tail. line = CHR ''-'' # tail \<and> starts_with_int tail)"
    proof
      assume "\<exists>tail. line = CHR ''-'' # tail \<and> starts_with_int tail"
      then obtain tail where l: "line = CHR ''-'' # tail" and s: "starts_with_int tail"
        by blast
      from a obtain e where 1: "conv_d (c_string line) = Inl e"
        using not_starts_with_int starts_with_int_c_string by blast
      from l have 2: "c_string line = CHR ''-'' # c_string tail" by (simp add: c_string_Cons)
      from s obtain v r where 3: "conv_d (c_string tail) = Inr (v, r)"
        using starts_with_int_iff starts_with_int_c_string by blast
      from classify_minus [OF 1 2 3] none show False by simp
    qed
    from a b show "\<not> starts_with_int line \<and>
      \<not> (\<exists>tail. line = CHR ''-'' # tail \<and> starts_with_int tail)" ..
  next
    assume f: "\<not> starts_with_int line \<and>
      \<not> (\<exists>tail. line = CHR ''-'' # tail \<and> starts_with_int tail)"
    then obtain e where 1: "conv_d (c_string line) = Inl e"
      using not_starts_with_int starts_with_int_c_string by blast
    show "classify line = None"
    proof (rule classify_none [OF 1])
      fix cs
      assume c: "c_string line = CHR ''-'' # cs"
      then obtain tail where l: "line = CHR ''-'' # tail"
        by (cases line) (auto simp: c_string_def split: if_splits)
      with c have cs: "cs = c_string tail" by (simp add: c_string_Cons)
      from f l have "\<not> starts_with_int (c_string tail)"
        by (simp add: starts_with_int_c_string)
      then show "\<exists>e'. conv_d cs = Inl e'" unfolding cs by (simp add: not_starts_with_int)
    qed
  qed
  show "classify line = None \<longrightarrow> loop_body line st = st"
    by (simp add: loop_body_skip)
  show "classify ''5 abc'' = Some (5, - 1)"
    by (simp add: scan_defs)
qed

theorem malformed_line_ignored_witness:
  "\<not> starts_with_int ''abc'' \<and> classify ''abc'' = None \<and>
   loop_body ''abc'' initial_scores = initial_scores"
proof -
  have "conv_d ''abc'' = Inl MatchingFailure"
    by (simp add: conv_d_def isspace_def isdigit_def)
  then have n: "\<not> starts_with_int ''abc''" by (simp add: not_starts_with_int)
  note t = malformed_line_ignored [of "''abc''" initial_scores]
  from t n have c: "classify ''abc'' = None" by simp
  with t have "loop_body ''abc'' initial_scores = initial_scores" by blast
  with n c show ?thesis by simp
qed

text \<open>The line \<^verbatim>\<open>5 abc\<close> is counted: bucket 5 of the inbound histogram, an invalid
  outbound score, and one line more.\<close>

theorem malformed_line_ignored_counterexample:
  "classify ''5 abc'' = Some (5, - 1) \<and>
   count (loop_body ''5 abc'' initial_scores) = 1 \<and>
   invalid_out (loop_body ''5 abc'' initial_scores) = 1 \<and>
   score_count_in (loop_body ''5 abc'' initial_scores) = empty_hist[5 := 1]"
proof -
  have c: "classify ''5 abc'' = Some (5, - 1)" by (simp add: scan_defs)
  have "nat (sint (5 :: c_int)) = 5" "\<not> int MAX_SCORE < sint (5 :: c_int)"
    by (simp_all add: MAX_SCORE_def)
  then show ?thesis
    by (simp add: c loop_body_def store_score_def initial_scores_def nth_empty_hist
        MAX_SCORE_def)
qed

subsection \<open>The median\<close>

declare of_int_sint [simp del]

lemma hist_sum_take_Suc:
  "i < length h \<Longrightarrow> hist_sum (take (Suc i) h) = hist_sum (take i h) + sint (h ! i)"
  by (simp add: hist_sum_def take_Suc_conv_app_nth)

lemma median_scan_spec:
  "length h = Suc MAX_SCORE \<Longrightarrow>
     i \<le> Suc MAX_SCORE \<Longrightarrow> m = real_of_int (hist_sum (take i h)) \<Longrightarrow>
     \<forall>j<i. running_sum h j < sint limit \<Longrightarrow>
     first_reaches h (sint limit) (median_scan h limit i m) \<or>
     (median_scan h limit i m = Suc MAX_SCORE \<and> (\<forall>j\<le>MAX_SCORE. running_sum h j < sint limit))"
proof (induction h limit i m rule: median_scan.induct)
  case (1 h limit i m)
  show ?case
  proof (cases "i \<le> MAX_SCORE")
    case False
    with "1.prems"(2) have i: "i = Suc MAX_SCORE" by simp
    from False have "median_scan h limit i m = i"
      by (simp add: median_scan.simps [of h limit i m])
    with i have "median_scan h limit i m = Suc MAX_SCORE" by simp
    moreover from "1.prems"(4) i have "\<forall>j\<le>MAX_SCORE. running_sum h j < sint limit"
      by (simp add: less_Suc_eq_le)
    ultimately show ?thesis by simp
  next
    case True
    with "1.prems"(1) have il: "i < length h" by simp
    let ?m' = "m + real_of_int (sint (h ! i))"
    from "1.prems"(3) il have m': "?m' = real_of_int (running_sum h i)"
      by (simp add: running_sum_def hist_sum_take_Suc)
    show ?thesis
    proof (cases "real_of_int (sint limit) \<le> ?m'")
      case reach: True
      with True have "median_scan h limit i m = i"
        by (simp add: median_scan.simps [of h limit i m])
      moreover from reach m' have "sint limit \<le> running_sum h i" by simp
      ultimately show ?thesis using True "1.prems"(4) by (simp add: first_reaches_def)
    next
      case notyet: False
      with True have r: "median_scan h limit i m = median_scan h limit (i + 1) ?m'"
        by (simp add: median_scan.simps [of h limit i m])
      from notyet m' have lt: "running_sum h i < sint limit" by simp
      have "first_reaches h (sint limit) (median_scan h limit (i + 1) ?m') \<or>
        (median_scan h limit (i + 1) ?m' = Suc MAX_SCORE \<and>
         (\<forall>j\<le>MAX_SCORE. running_sum h j < sint limit))"
      proof (rule "1.IH" [OF True])
        show "\<not> real_of_int (sint limit) \<le> ?m'" by (rule notyet)
        show "length h = Suc MAX_SCORE" by (rule "1.prems"(1))
        show "i + 1 \<le> Suc MAX_SCORE" using True by simp
        show "?m' = real_of_int (hist_sum (take (i + 1) h))"
          using m' by (simp add: running_sum_def)
        show "\<forall>j<i + 1. running_sum h j < sint limit"
          using "1.prems"(4) lt by (simp add: less_Suc_eq)
      qed
      with r show ?thesis by simp
    qed
  qed
qed

lemma median_scan_start:
  assumes "length h = Suc MAX_SCORE"
  shows "first_reaches h (sint limit) (median_scan h limit 0 0) \<or>
     (median_scan h limit 0 0 = Suc MAX_SCORE \<and> (\<forall>j\<le>MAX_SCORE. running_sum h j < sint limit))"
  using median_scan_spec [OF assms, of 0 0 limit] by (simp add: hist_sum_def)

lemma median_scan_reaches:
  assumes "length h = Suc MAX_SCORE" "sint limit \<le> hist_sum h"
  shows "first_reaches h (sint limit) (median_scan h limit 0 0)"
proof -
  from assms(1) have "running_sum h MAX_SCORE = hist_sum h" by (simp add: running_sum_def)
  with assms(2) have "\<not> (\<forall>j\<le>MAX_SCORE. running_sum h j < sint limit)" by auto
  with median_scan_start [OF assms(1), of limit] show ?thesis by blast
qed

lemma median_scan_never:
  assumes "length h = Suc MAX_SCORE" "\<forall>j\<le>MAX_SCORE. running_sum h j < sint limit"
  shows "median_scan h limit 0 0 = Suc MAX_SCORE"
proof -
  from assms(2) have "\<not> first_reaches h (sint limit) (median_scan h limit 0 0)"
    by (auto simp: first_reaches_def)
  with median_scan_start [OF assms(1), of limit] show ?thesis by blast
qed

lemma first_reaches_unique:
  "first_reaches h t i \<Longrightarrow> first_reaches h t k \<Longrightarrow> i = k"
  unfolding first_reaches_def by (metis linorder_neqE_nat not_less)

lemma sint_word_of_int_small:
  "- (2 ^ 31) \<le> k \<Longrightarrow> k < 2 ^ 31 \<Longrightarrow> sint (word_of_int k :: c_int) = k"
  by (simp add: sint_sbintrunc' signed_take_bit_int_eq_self)

lemma sint_c_int_range: "- (2 ^ 31) \<le> sint (n :: c_int)" "sint (n :: c_int) < 2 ^ 31"
  using sint_ge [of n] sint_lt [of n] by simp_all

lemma sdiv_2_nonneg: "0 \<le> k \<Longrightarrow> k sdiv 2 = k div (2::int)"
  by (simp add: signed_divide_int_def sgn_if)

lemma c_mod_2_odd: "c_mod n 2 \<noteq> 0 \<longleftrightarrow> odd (sint n)"
proof -
  have "sint n smod 2 = sgn (sint n) * (\<bar>sint n\<bar> mod 2)"
    by (simp add: signed_modulo_int_def)
  moreover have "\<bar>sint n\<bar> mod 2 = (if odd (sint n) then 1 else 0)"
    by (simp add: mod_2_eq_odd)
  ultimately have "sint n smod 2 = (if odd (sint n) then sgn (sint n) else 0)" by simp
  moreover have "odd (sint n) \<Longrightarrow> sgn (sint n) = 1 \<or> sgn (sint n) = - 1"
    by (auto simp: sgn_if)
  ultimately show ?thesis by (auto simp: c_mod_def)
qed

lemma c_div_2_nonneg:
  assumes "0 \<le> sint n"
  shows "sint (c_div n 2) = sint n div 2"
proof -
  from assms sint_c_int_range(2) [of n] have "- (2 ^ 31) \<le> sint n div 2" "sint n div 2 < 2 ^ 31"
    by simp_all
  then show ?thesis using assms by (simp add: c_div_def sdiv_2_nonneg sint_word_of_int_small)
qed

lemma c_div_2_succ:
  assumes "0 \<le> sint n"
  shows "sint (c_div n 2 + 1) = sint n div 2 + 1"
proof -
  from assms sint_c_int_range(2) [of n] have "sint n div 2 + 1 < 2 ^ 31" by simp
  moreover from assms have "0 \<le> sint n div 2" by simp
  ultimately show ?thesis
    using sint_add_no_wrap [of "c_div n 2" 1] by (simp add: c_div_2_nonneg [OF assms])
qed

lemma c_div_succ_2:
  assumes "0 \<le> sint n" "sint n < 2 ^ 31 - 1"
  shows "sint (c_div (n + 1) 2) = (sint n + 1) div 2"
proof -
  from assms have "sint (n + 1) = sint n + 1" by (rule sint_succ)
  with assms c_div_2_nonneg [of "n + 1"] show ?thesis by simp
qed

lemma c_div_succ_2_le:
  assumes "0 < sint n"
  shows "sint (c_div (n + 1) 2) \<le> sint n"
proof (cases "sint n < 2 ^ 31 - 1")
  case True
  with assms show ?thesis by (simp add: c_div_succ_2)
next
  case False
  with sint_c_int_range(2) [of n] have "sint n = 2 ^ 31 - 1" by simp
  moreover have "n = word_of_int (sint n)" by (simp add: of_int_sint)
  ultimately have n: "n = 2147483647" by simp
  have "sint (c_div (2147483647 + 1) 2) = - (2 ^ 30)"
    by (simp add: c_div_def signed_divide_int_def)
  then have "sint (c_div (n + 1) 2) = - (2 ^ 30)" by (simp only: n)
  with assms show ?thesis by simp
qed

lemma sint_index_sum:
  assumes "a \<le> Suc MAX_SCORE" "b \<le> Suc MAX_SCORE"
  shows "sint (of_nat a + of_nat b :: c_int) = int a + int b"
proof -
  have s: "\<And>k. k \<le> Suc MAX_SCORE \<Longrightarrow> sint (of_nat k :: c_int) = int k"
    by (simp add: signed_of_nat signed_take_bit_int_eq_self MAX_SCORE_def)
  from assms have "int a + int b < 2 ^ 31" by (simp add: MAX_SCORE_def)
  with assms show ?thesis
    using sint_add_no_wrap [of "of_nat a" "of_nat b"] by (simp add: s)
qed

lemma consistent_total_nonneg: "consistent_total h n \<Longrightarrow> 0 \<le> sint n"
  unfolding consistent_total_def using hist_sum_nonneg [of h] by auto

lemma avg_median_odd_branch:
  assumes "odd (sint n)"
  shows "avg_median h n = Num (real (median_scan h (c_div (n + 1) 2) 0 0))"
  using assms by (simp add: avg_median_def c_mod_2_odd)

lemma avg_median_even_branch:
  assumes "even (sint n)" "length h = Suc MAX_SCORE"
    "first_reaches h t1 (median_scan h (c_div n 2) 0 0) \<or> median_scan h (c_div n 2) 0 0 = Suc MAX_SCORE"
    "first_reaches h t2 (median_scan h (c_div n 2 + 1) 0 0) \<or>
       median_scan h (c_div n 2 + 1) 0 0 = Suc MAX_SCORE"
  shows "avg_median h n =
     Num ((real (median_scan h (c_div n 2) 0 0) + real (median_scan h (c_div n 2 + 1) 0 0)) / 2)"
proof -
  from assms(3) have a: "median_scan h (c_div n 2) 0 0 \<le> Suc MAX_SCORE"
    by (auto simp: first_reaches_def)
  from assms(4) have b: "median_scan h (c_div n 2 + 1) 0 0 \<le> Suc MAX_SCORE"
    by (auto simp: first_reaches_def)
  from assms(1) have "c_mod n 2 = 0" using c_mod_2_odd [of n] by simp
  then show ?thesis
    by (simp add: avg_median_def Let_def sint_index_sum [OF a b] double_div_def)
qed

text \<open>
  Claim C6. For a histogram of non-negative counts that add up to an odd total \<open>n\<close>,
  \<^verbatim>\<open>avg_median\<close> returns the first score at which the running sum of the counts reaches
  the limit \<^verbatim>\<open>(scores_read + 1) / 2\<close>. The limit is computed in \<^verbatim>\<open>int\<close>; it is the integer
  \<open>(n + 1) div 2\<close> for every total below the largest \<^verbatim>\<open>int\<close>. For the histogram
  0: 2, 5: 1, 10: 2 with total 5 the result is 5.
\<close>

theorem avg_median_odd:
  assumes "consistent_total h n" "odd (sint n)"
  shows "(\<exists>i. first_reaches h (sint (c_div (n + 1) 2)) i \<and> avg_median h n = Num (real i)) \<and>
         (sint n < 2 ^ 31 - 1 \<longrightarrow>
            (\<exists>i. first_reaches h ((sint n + 1) div 2) i \<and> avg_median h n = Num (real i)))"
proof -
  from assms(1) have len: "length h = Suc MAX_SCORE" and tot: "hist_sum h = sint n"
    by (simp_all add: consistent_total_def)
  from assms have pos: "0 < sint n"
    using consistent_total_nonneg [OF assms(1)] by (cases "sint n = 0") auto
  then have "sint (c_div (n + 1) 2) \<le> hist_sum h"
    unfolding tot by (rule c_div_succ_2_le)
  with len have "first_reaches h (sint (c_div (n + 1) 2)) (median_scan h (c_div (n + 1) 2) 0 0)"
    by (rule median_scan_reaches)
  then have 1: "\<exists>i. first_reaches h (sint (c_div (n + 1) 2)) i \<and> avg_median h n = Num (real i)"
    using avg_median_odd_branch [OF assms(2), of h] by blast
  have "sint n < 2 ^ 31 - 1 \<longrightarrow> sint (c_div (n + 1) 2) = (sint n + 1) div 2"
    using pos by (simp add: c_div_succ_2)
  with 1 show ?thesis by auto
qed

text \<open>
  Claim C5. For a histogram of non-negative counts that add up to an even total \<open>n > 0\<close>,
  \<^verbatim>\<open>avg_median\<close> returns \<open>(lower + upper) / 2\<close>, where \<open>lower\<close> is the first score at
  which the running sum reaches \<open>n div 2\<close> and \<open>upper\<close> the first score at which it
  reaches \<open>n div 2 + 1\<close>, each found by a scan from score 0. For the histogram
  0: 2, 5: 1, 10: 1 with total 4 the result is 2.5.
\<close>

theorem avg_median_even:
  assumes "consistent_total h n" "even (sint n)" "0 < sint n"
  shows "\<exists>lower upper.
           first_reaches h (sint n div 2) lower \<and>
           first_reaches h (sint n div 2 + 1) upper \<and>
           avg_median h n = Num ((real lower + real upper) / 2)"
proof -
  from assms(1) have len: "length h = Suc MAX_SCORE" and tot: "hist_sum h = sint n"
    by (simp_all add: consistent_total_def)
  from assms(3) have nn: "0 \<le> sint n" by simp
  let ?lower = "median_scan h (c_div n 2) 0 0" and ?upper = "median_scan h (c_div n 2 + 1) 0 0"
  from assms(3) have "sint (c_div n 2) \<le> hist_sum h"
    unfolding tot by (simp add: c_div_2_nonneg [OF nn])
  with len have "first_reaches h (sint (c_div n 2)) ?lower" by (rule median_scan_reaches)
  then have l: "first_reaches h (sint n div 2) ?lower" by (simp add: c_div_2_nonneg [OF nn])
  from assms(2,3) have "sint n div 2 + 1 \<le> sint n" by presburger
  then have "sint (c_div n 2 + 1) \<le> hist_sum h"
    unfolding tot by (simp add: c_div_2_succ [OF nn])
  with len have "first_reaches h (sint (c_div n 2 + 1)) ?upper" by (rule median_scan_reaches)
  then have u: "first_reaches h (sint n div 2 + 1) ?upper" by (simp add: c_div_2_succ [OF nn])
  from l u have "avg_median h n = Num ((real ?lower + real ?upper) / 2)"
    using avg_median_even_branch [OF assms(2) len] by blast
  with l u show ?thesis by blast
qed

lemma hist_sum_zero: "\<forall>c\<in>set h. c = 0 \<Longrightarrow> hist_sum h = 0"
  unfolding hist_sum_def by (induction h) simp_all

lemma running_sum_zero:
  assumes "\<forall>c\<in>set h. c = 0"
  shows "running_sum h j = 0"
proof -
  from assms have "\<forall>c\<in>set (take (Suc j) h). c = 0"
    by (meson in_set_takeD)
  then show ?thesis unfolding running_sum_def by (rule hist_sum_zero)
qed

lemma median_of_zero_histogram:
  assumes "length h = Suc MAX_SCORE" "\<forall>c\<in>set h. c = 0"
  shows "c_mod 0 2 = 0 \<and> sint (c_div 0 2) = 0 \<and> sint (c_div 0 2 + 1) = 1 \<and>
         median_scan h (c_div 0 2) 0 0 = 0 \<and>
         median_scan h (c_div 0 2 + 1) 0 0 = MAX_SCORE + 1 \<and> MAX_SCORE + 1 = 65537 \<and>
         avg_median h 0 = Num 32768.5"
proof -
  have m: "c_mod 0 2 = 0" by (simp add: c_mod_def signed_modulo_int_def)
  have t1: "sint (c_div 0 2) = 0" using c_div_2_nonneg [of 0] by simp
  have t2: "sint (c_div 0 2 + 1) = 1" using c_div_2_succ [of 0] by simp
  note z = running_sum_zero [OF assms(2)]
  from assms(1) have "first_reaches h (sint (c_div 0 2)) (median_scan h (c_div 0 2) 0 0)"
    by (rule median_scan_reaches) (simp add: t1 hist_sum_zero [OF assms(2)])
  moreover have "first_reaches h (sint (c_div 0 2)) 0"
    by (simp add: first_reaches_def t1 z)
  ultimately have lower: "median_scan h (c_div 0 2) 0 0 = 0" by (rule first_reaches_unique)
  from assms(1) have upper: "median_scan h (c_div 0 2 + 1) 0 0 = Suc MAX_SCORE"
    by (rule median_scan_never) (simp add: t2 z)
  have "avg_median h 0 = Num ((real 0 + real (Suc MAX_SCORE)) / 2)"
    using avg_median_even_branch [of 0 h "sint (c_div 0 2)" 0] assms(1) lower upper
    by (simp add: first_reaches_def t1 z)
  then have "avg_median h 0 = Num 32768.5" by (simp add: MAX_SCORE_def)
  with m t1 t2 lower upper show ?thesis by (simp add: MAX_SCORE_def)
qed

text \<open>
  Claim C10. With \<^verbatim>\<open>scores_read = 0\<close> and a histogram of zeros, \<^verbatim>\<open>avg_median\<close> takes
  the even branch; the first scan, with limit 0, stops at index 0; the second, with limit
  1, runs to the end and leaves \<open>i = MAX_SCORE + 1 = 65537\<close>; the result is
  \<open>(0 + 65537) / 2 = 32768.5\<close>.
\<close>

theorem avg_median_no_scores:
  assumes "length h = Suc MAX_SCORE" "\<forall>c\<in>set h. c = 0"
  shows "c_mod 0 2 = 0 \<and> sint (c_div 0 2) = 0 \<and> sint (c_div 0 2 + 1) = 1 \<and>
         median_scan h (c_div 0 2) 0 0 = 0 \<and>
         median_scan h (c_div 0 2 + 1) 0 0 = MAX_SCORE + 1 \<and> MAX_SCORE + 1 = 65537 \<and>
         avg_median h 0 = Num 32768.5"
  using assms by (rule median_of_zero_histogram)

lemma running_sum_update:
  assumes "k < length h"
  shows "running_sum (h[k := v]) j =
           running_sum h j + (if k \<le> j then sint v - sint (h ! k) else 0)"
proof (cases "k \<le> j")
  case True
  with assms have "k < length (take (Suc j) h)" by simp
  then have "hist_sum ((take (Suc j) h)[k := v]) =
      hist_sum (take (Suc j) h) - sint (take (Suc j) h ! k) + sint v"
    by (rule hist_sum_update)
  with True show ?thesis by (simp add: running_sum_def take_update_swap)
next
  case False
  then show ?thesis by (simp add: running_sum_def)
qed

lemma running_sum_empty_hist: "running_sum empty_hist j = 0"
  by (rule running_sum_zero) (auto dest: in_empty_hist)

lemma consistent_total_empty_hist: "consistent_total empty_hist 0"
  by (auto simp: consistent_total_def length_empty_hist hist_sum_empty_hist dest: in_empty_hist)

lemma consistent_total_update:
  assumes "consistent_total h n" "k \<le> MAX_SCORE" "0 \<le> sint v"
    "sint n' = sint n - sint (h ! k) + sint v"
  shows "consistent_total (h[k := v]) n'"
proof -
  from assms(1) have len: "length h = Suc MAX_SCORE" and nn: "\<forall>c\<in>set h. 0 \<le> sint c"
    and tot: "hist_sum h = sint n"
    by (simp_all add: consistent_total_def)
  from len assms(2) have k: "k < length h" by simp
  have "\<forall>c\<in>set (h[k := v]). 0 \<le> sint c"
  proof
    fix c assume "c \<in> set (h[k := v])"
    then have "c \<in> insert v (set h)" using set_update_subset_insert by fast
    with nn assms(3) show "0 \<le> sint c" by auto
  qed
  with len tot assms(4) show ?thesis
    by (simp add: consistent_total_def hist_sum_update [OF k])
qed

theorem avg_median_no_scores_witness:
  "length empty_hist = Suc MAX_SCORE \<and>
   median_scan empty_hist (c_div 0 2) 0 0 = 0 \<and>
   median_scan empty_hist (c_div 0 2 + 1) 0 0 = 65537 \<and>
   avg_median empty_hist 0 = Num 32768.5"
proof -
  have z: "\<forall>c\<in>set empty_hist. c = 0" by (auto dest: in_empty_hist)
  from avg_median_no_scores [OF length_empty_hist z] show ?thesis
    by (simp add: length_empty_hist)
qed

lemma odd_example:
  "consistent_total (empty_hist[0 := 2, 5 := 1, 10 := 2]) 5"
proof -
  have "consistent_total (empty_hist[0 := 2]) 2"
    by (rule consistent_total_update [OF consistent_total_empty_hist])
      (simp_all add: nth_empty_hist)
  then have "consistent_total (empty_hist[0 := 2, 5 := 1]) 3"
    by (rule consistent_total_update)
      (simp_all add: MAX_SCORE_def nth_empty_hist length_empty_hist)
  then show ?thesis
    by (rule consistent_total_update)
      (simp_all add: MAX_SCORE_def nth_empty_hist length_empty_hist)
qed

lemma odd_example_running:
  "running_sum (empty_hist[0 := 2, 5 := 1, 10 := 2]) j =
     (if 10 \<le> j then 5 else if 5 \<le> j then 3 else 2)"
  by (simp add: running_sum_update running_sum_empty_hist length_empty_hist MAX_SCORE_def
      nth_empty_hist)

theorem avg_median_odd_witness:
  "consistent_total (empty_hist[0 := 2, 5 := 1, 10 := 2]) 5 \<and> odd (sint (5 :: c_int)) \<and>
   first_reaches (empty_hist[0 := 2, 5 := 1, 10 := 2]) 3 5 \<and>
   avg_median (empty_hist[0 := 2, 5 := 1, 10 := 2]) 5 = Num 5"
proof -
  let ?h = "empty_hist[0 := 2, 5 := 1, 10 := 2]"
  have o: "odd (sint (5 :: c_int))" by simp
  have "sint (5 :: c_int) < 2 ^ 31 - 1" by simp
  with avg_median_odd [OF odd_example o]
  obtain i where i: "first_reaches ?h ((sint (5 :: c_int) + 1) div 2) i"
    and m: "avg_median ?h 5 = Num (real i)" by blast
  have f: "first_reaches ?h 3 5"
    by (simp add: first_reaches_def odd_example_running MAX_SCORE_def)
  from i have "first_reaches ?h 3 i" by simp
  then have "i = 5" using f by (rule first_reaches_unique)
  with m f o odd_example show ?thesis by simp
qed

lemma even_example:
  "consistent_total (empty_hist[0 := 2, 5 := 1, 10 := 1]) 4"
proof -
  have "consistent_total (empty_hist[0 := 2]) 2"
    by (rule consistent_total_update [OF consistent_total_empty_hist])
      (simp_all add: nth_empty_hist)
  then have "consistent_total (empty_hist[0 := 2, 5 := 1]) 3"
    by (rule consistent_total_update)
      (simp_all add: MAX_SCORE_def nth_empty_hist length_empty_hist)
  then show ?thesis
    by (rule consistent_total_update)
      (simp_all add: MAX_SCORE_def nth_empty_hist length_empty_hist)
qed

lemma even_example_running:
  "running_sum (empty_hist[0 := 2, 5 := 1, 10 := 1]) j =
     (if 10 \<le> j then 4 else if 5 \<le> j then 3 else 2)"
  by (simp add: running_sum_update running_sum_empty_hist length_empty_hist MAX_SCORE_def
      nth_empty_hist)

theorem avg_median_even_witness:
  "consistent_total (empty_hist[0 := 2, 5 := 1, 10 := 1]) 4 \<and>
   even (sint (4 :: c_int)) \<and> 0 < sint (4 :: c_int) \<and>
   first_reaches (empty_hist[0 := 2, 5 := 1, 10 := 1]) 2 0 \<and>
   first_reaches (empty_hist[0 := 2, 5 := 1, 10 := 1]) 3 5 \<and>
   avg_median (empty_hist[0 := 2, 5 := 1, 10 := 1]) 4 = Num 2.5"
proof -
  let ?h = "empty_hist[0 := 2, 5 := 1, 10 := 1]"
  have e: "even (sint (4 :: c_int))" and p: "0 < sint (4 :: c_int)" by simp_all
  from avg_median_even [OF even_example e p]
  obtain lower upper where l: "first_reaches ?h (sint (4 :: c_int) div 2) lower"
    and u: "first_reaches ?h (sint (4 :: c_int) div 2 + 1) upper"
    and m: "avg_median ?h 4 = Num ((real lower + real upper) / 2)" by blast
  have fl: "first_reaches ?h 2 0" and fu: "first_reaches ?h 3 5"
    by (simp_all add: first_reaches_def even_example_running MAX_SCORE_def)
  from l have "first_reaches ?h 2 lower" by simp
  then have "lower = 0" using fl by (rule first_reaches_unique)
  moreover from u have "first_reaches ?h 3 upper" by simp
  then have "upper = 5" using fu by (rule first_reaches_unique)
  ultimately have "avg_median ?h 4 = Num 2.5" using m by simp
  with even_example e p fl fu show ?thesis by simp
qed

subsection \<open>The rows of the report\<close>

lemma word_of_int_sint: "word_of_int (sint (w :: c_int)) = w"
  by (simp add: of_int_sint)

lemma print_rows_eq:
  "length h = Suc MAX_SCORE \<Longrightarrow> i \<le> Suc MAX_SCORE \<Longrightarrow>
   rt = word_of_int (sint iv + hist_sum (take i h)) \<Longrightarrow>
   print_rows h n i rt =
     map (\<lambda>k. make_row (Some k) (h ! k) (word_of_int (sint iv + running_sum h k)) n)
       (filter (\<lambda>k. h ! k \<noteq> 0) [i..<length h])"
proof (induction h n i rt rule: print_rows.induct)
  case (1 h n i rt)
  show ?case
  proof (cases "i \<le> MAX_SCORE")
    case False
    with "1.prems"(1) have "length h \<le> i" by simp
    then have "filter (\<lambda>k. h ! k \<noteq> 0) [i..<length h] = []" by simp
    moreover from False have "print_rows h n i rt = []"
      by (simp add: print_rows.simps [of h n i rt])
    ultimately show ?thesis by simp
  next
    case True
    with "1.prems"(1) have il: "i < length h" by simp
    then have upt: "[i..<length h] = i # [i + 1..<length h]"
      by (simp add: upt_conv_Cons)
    have rt': "rt + h ! i = word_of_int (sint iv + running_sum h i)"
    proof -
      have "rt + h ! i = word_of_int (sint iv + hist_sum (take i h)) + word_of_int (sint (h ! i))"
        by (simp add: "1.prems"(3) word_of_int_sint)
      also have "\<dots> = word_of_int (sint iv + hist_sum (take i h) + sint (h ! i))"
        by simp
      finally show ?thesis using il by (simp add: running_sum_def hist_sum_take_Suc add.assoc)
    qed
    show ?thesis
    proof (cases "h ! i = 0")
      case zero: True
      from rt' zero have "rt = word_of_int (sint iv + hist_sum (take (i + 1) h))"
        by (simp add: running_sum_def)
      moreover have "i + 1 \<le> Suc MAX_SCORE" using True by simp
      ultimately have "print_rows h n (i + 1) rt =
        map (\<lambda>k. make_row (Some k) (h ! k) (word_of_int (sint iv + running_sum h k)) n)
          (filter (\<lambda>k. h ! k \<noteq> 0) [i + 1..<length h])"
        using zero "1.prems"(1) by (intro "1.IH"(2) [OF True]) simp_all
      with True zero show ?thesis
        by (simp add: print_rows.simps [of h n i rt] upt)
    next
      case nz: False
      from rt' have "rt + h ! i = word_of_int (sint iv + hist_sum (take (i + 1) h))"
        by (simp add: running_sum_def)
      moreover have "i + 1 \<le> Suc MAX_SCORE" using True by simp
      ultimately have "print_rows h n (i + 1) (rt + h ! i) =
        map (\<lambda>k. make_row (Some k) (h ! k) (word_of_int (sint iv + running_sum h k)) n)
          (filter (\<lambda>k. h ! k \<noteq> 0) [i + 1..<length h])"
        using "1.prems"(1) by (intro "1.IH"(1) [OF True nz]) simp_all
      with True nz rt' show ?thesis
        by (simp add: print_rows.simps [of h n i rt] upt)
    qed
  qed
qed

lemma report_rows_eq:
  assumes "length h = Suc MAX_SCORE"
  shows "report_rows (print_side h iv n) =
     make_row None iv iv n #
     map (\<lambda>k. make_row (Some k) (h ! k) (word_of_int (sint iv + running_sum h k)) n)
       (nonzero_scores h)"
proof -
  have "print_rows h n 0 iv =
     map (\<lambda>k. make_row (Some k) (h ! k) (word_of_int (sint iv + running_sum h k)) n)
       (filter (\<lambda>k. h ! k \<noteq> 0) [0..<length h])"
    using assms by (intro print_rows_eq) (simp_all add: hist_sum_def word_of_int_sint)
  then show ?thesis
    unfolding assms by (simp only: print_side_def nonzero_scores_def side_report.simps)
qed

lemma hist_sum_append: "hist_sum (xs @ ys) = hist_sum xs + hist_sum ys"
  by (simp add: hist_sum_def)

lemma hist_sum_take_le:
  assumes "\<forall>c\<in>set h. 0 \<le> sint c"
  shows "hist_sum (take a h) \<le> hist_sum h"
proof -
  have "hist_sum h = hist_sum (take a h) + hist_sum (drop a h)"
    using hist_sum_append [of "take a h" "drop a h"] by simp
  moreover from assms have "0 \<le> hist_sum (drop a h)"
    by (intro hist_sum_nonneg) (meson in_set_dropD)
  ultimately show ?thesis by simp
qed

lemma running_sum_le_total:
  "\<forall>c\<in>set h. 0 \<le> sint c \<Longrightarrow> running_sum h k \<le> hist_sum h"
  unfolding running_sum_def by (rule hist_sum_take_le)

lemma running_sum_nonneg:
  "\<forall>c\<in>set h. 0 \<le> sint c \<Longrightarrow> 0 \<le> running_sum h k"
  unfolding running_sum_def by (intro hist_sum_nonneg) (meson in_set_takeD)

lemma running_sum_mono:
  assumes "\<forall>c\<in>set h. 0 \<le> sint c" "j \<le> k"
  shows "running_sum h j \<le> running_sum h k"
proof -
  from assms(2) have "take (Suc j) h = take (Suc j) (take (Suc k) h)" by (simp add: min_def)
  moreover from assms(1) have "\<forall>c\<in>set (take (Suc k) h). 0 \<le> sint c" by (meson in_set_takeD)
  ultimately show ?thesis
    unfolding running_sum_def using hist_sum_take_le [of "take (Suc k) h" "Suc j"] by simp
qed

lemma running_sum_tail_zero:
  assumes "\<forall>j. k < j \<and> j < length h \<longrightarrow> h ! j = 0"
  shows "running_sum h k = hist_sum h"
proof -
  have "\<forall>c\<in>set (drop (Suc k) h). c = 0"
  proof
    fix c assume "c \<in> set (drop (Suc k) h)"
    then obtain i where "i < length (drop (Suc k) h)" "c = drop (Suc k) h ! i"
      by (auto simp: in_set_conv_nth)
    with assms show "c = 0" by simp
  qed
  then have "hist_sum (drop (Suc k) h) = 0" by (rule hist_sum_zero)
  with hist_sum_append [of "take (Suc k) h" "drop (Suc k) h"] show ?thesis
    by (simp add: running_sum_def)
qed

lemma last_filter_upt:
  "filter P [0..<m] \<noteq> [] \<Longrightarrow>
     \<exists>k<m. last (filter P [0..<m]) = k \<and> P k \<and> (\<forall>j. k < j \<longrightarrow> j < m \<longrightarrow> \<not> P j)"
proof (induction m)
  case 0
  then show ?case by simp
next
  case (Suc m)
  show ?case
  proof (cases "P m")
    case True
    then have l: "last (filter P [0..<Suc m]) = m" by simp
    show ?thesis
    proof (intro exI [of _ m] conjI allI impI)
      show "m < Suc m" by simp
      show "last (filter P [0..<Suc m]) = m" by (rule l)
      show "P m" by (rule True)
      fix j assume "m < j" "j < Suc m"
      then have False by arith
      then show "\<not> P j" ..
    qed
  next
    case False
    then have f: "filter P [0..<Suc m] = filter P [0..<m]" by simp
    with Suc.prems have ne: "filter P [0..<m] \<noteq> []" by simp
    from Suc.IH [OF ne] obtain k where k: "k < m" "last (filter P [0..<m]) = k" "P k"
      and later: "\<And>j. k < j \<Longrightarrow> j < m \<Longrightarrow> \<not> P j" by blast
    show ?thesis
    proof (intro exI [of _ k] conjI allI impI)
      show "k < Suc m" using k(1) by simp
      show "last (filter P [0..<Suc m]) = k" using k(2) by (simp only: f)
      show "P k" by (rule k(3))
      fix j assume j: "k < j" "j < Suc m"
      show "\<not> P j"
      proof (cases "j = m")
        case True
        with False show ?thesis by simp
      next
        case False
        with j(2) have "j < m" by arith
        with j(1) show ?thesis by (rule later)
      qed
    qed
  qed
qed

lemma sorted_nonzero_scores: "sorted (nonzero_scores h)"
  unfolding nonzero_scores_def by (intro sorted_wrt_filter) (rule sorted_upt)

lemma nonzero_scores_bound: "k \<in> set (nonzero_scores h) \<Longrightarrow> k \<le> MAX_SCORE"
proof -
  have "set (nonzero_scores h) \<subseteq> set [0..<Suc MAX_SCORE]"
    unfolding nonzero_scores_def by (rule filter_is_subset)
  moreover assume "k \<in> set (nonzero_scores h)"
  ultimately have "k \<in> set [0..<Suc MAX_SCORE]" by blast
  then show ?thesis by (simp del: upt_Suc)
qed

lemma percent_Num:
  "sint n \<noteq> 0 \<Longrightarrow> percent c n = Num (100 * (real_of_int (sint c) / real_of_int (sint n)))"
  by (simp add: percent_def double_div_def)

lemma row_simps:
  "row_score (make_row s c rt n) = s"
  "row_count (make_row s c rt n) = c"
  "row_percent (make_row s c rt n) = percent c n"
  "row_cumulative (make_row s c rt n) = percent rt n"
  "row_outstanding (make_row s c rt n) = minus_from_100 (percent rt n)"
  by (simp_all add: make_row_def)

lemma side_ok_cumulative_range:
  assumes "side_ok h iv n"
  shows "0 \<le> sint iv + running_sum h k" "sint iv + running_sum h k \<le> sint n"
    "sint (word_of_int (sint iv + running_sum h k) :: c_int) = sint iv + running_sum h k"
proof -
  from assms have nn: "\<forall>c\<in>set h. 0 \<le> sint c" and iv: "0 \<le> sint iv"
    and tot: "hist_sum h + sint iv = sint n"
    by (simp_all add: side_ok_def)
  from nn have "0 \<le> running_sum h k" by (rule running_sum_nonneg)
  with iv show a: "0 \<le> sint iv + running_sum h k" by simp
  from nn have "running_sum h k \<le> hist_sum h" by (rule running_sum_le_total)
  with tot show b: "sint iv + running_sum h k \<le> sint n" by simp
  from b sint_c_int_range(2) [of n] have "sint iv + running_sum h k < 2 ^ 31" by simp
  with a show "sint (word_of_int (sint iv + running_sum h k) :: c_int) = sint iv + running_sum h k"
    by (intro sint_word_of_int_small) simp_all
qed

lemma cumulative_percent_mono:
  assumes "side_ok h iv n" "0 < sint n" "j \<le> k"
  shows "cumulative_percent h iv n None \<le> cumulative_percent h iv n (Some k)"
    and "cumulative_percent h iv n (Some j) \<le> cumulative_percent h iv n (Some k)"
proof -
  from assms(1) have nn: "\<forall>c\<in>set h. 0 \<le> sint c" by (simp add: side_ok_def)
  from assms(2) have p: "0 < real_of_int (sint n)" by simp
  from nn have "sint iv \<le> sint iv + running_sum h k"
    using running_sum_nonneg [of h k] by simp
  then have "real_of_int (sint iv) \<le> real_of_int (sint iv + running_sum h k)"
    by (simp only: of_int_le_iff)
  then show "cumulative_percent h iv n None \<le> cumulative_percent h iv n (Some k)"
    using p by (simp add: cumulative_percent_def cumulative_count_def divide_right_mono)
  from nn assms(3) have "sint iv + running_sum h j \<le> sint iv + running_sum h k"
    using running_sum_mono [of h j k] by simp
  then have "real_of_int (sint iv + running_sum h j) \<le> real_of_int (sint iv + running_sum h k)"
    by (simp only: of_int_le_iff)
  then show "cumulative_percent h iv n (Some j) \<le> cumulative_percent h iv n (Some k)"
    using p by (simp add: cumulative_percent_def cumulative_count_def divide_right_mono)
qed

text \<open>
  Claim C8. For an aggregate with a positive total, whose counts are non-negative and add
  up, with the invalid count, to the total: a side's block has the invalid row first and
  then one row for each non-zero bucket, by ascending score; the cumulative value of a row
  is 100 times the invalid count plus the running sum up to its score, over the total;
  these values never decrease, and the last one is exactly 100.
\<close>

theorem cumulative_percentages:
  assumes "side_ok h iv n" "0 < sint n"
  shows "map row_score (report_rows (print_side h iv n)) = None # map Some (nonzero_scores h) \<and>
     map row_cumulative (report_rows (print_side h iv n)) =
       map (\<lambda>s. Num (cumulative_percent h iv n s)) (None # map Some (nonzero_scores h)) \<and>
     sorted (map (cumulative_percent h iv n) (None # map Some (nonzero_scores h))) \<and>
     last (map (cumulative_percent h iv n) (None # map Some (nonzero_scores h))) = 100"
proof -
  let ?ks = "nonzero_scores h"
  let ?c = "cumulative_percent h iv n"
  from assms(1) have len: "length h = Suc MAX_SCORE" and nn: "\<forall>c\<in>set h. 0 \<le> sint c"
    and tot: "hist_sum h + sint iv = sint n"
    by (simp_all add: side_ok_def)
  from assms(2) have n0: "sint n \<noteq> 0" by simp
  note rows = report_rows_eq [OF len, of iv n]
  have scores: "map row_score (report_rows (print_side h iv n)) = None # map Some ?ks"
    unfolding rows by (simp add: row_simps comp_def)
  have cum_k: "\<And>k. percent (word_of_int (sint iv + running_sum h k)) n = Num (?c (Some k))"
    by (simp only: percent_Num [OF n0] side_ok_cumulative_range(3) [OF assms(1)]
        cumulative_percent_def cumulative_count_def option.case)
  have cum_iv: "percent iv n = Num (?c None)"
    by (simp only: percent_Num [OF n0] cumulative_percent_def cumulative_count_def option.case)
  have cums: "map row_cumulative (report_rows (print_side h iv n)) =
      map (\<lambda>s. Num (?c s)) (None # map Some ?ks)"
    unfolding rows by (simp only: list.map row_simps map_map comp_def cum_k cum_iv)
  have "sorted (map (\<lambda>k. ?c (Some k)) ?ks)"
    unfolding sorted_map
  proof (rule sorted_wrt_mono_rel [of ?ks "(\<le>)"])
    show "sorted_wrt (\<le>) ?ks" using sorted_nonzero_scores [of h] by simp
    fix j k :: nat
    assume "j \<in> set ?ks" "k \<in> set ?ks" "j \<le> k"
    with assms show "?c (Some j) \<le> ?c (Some k)" by (intro cumulative_percent_mono(2))
  qed
  moreover have "\<forall>y\<in>set (map (\<lambda>k. ?c (Some k)) ?ks). ?c None \<le> y"
    using cumulative_percent_mono(1) [OF assms le_refl] by auto
  ultimately have sorted: "sorted (map ?c (None # map Some ?ks))"
    by (simp add: comp_def)
  have last: "last (map ?c (None # map Some ?ks)) = 100"
  proof (cases "?ks = []")
    case True
    have "\<forall>c\<in>set h. c = 0"
    proof
      fix c assume "c \<in> set h"
      then obtain k where k: "k < length h" "c = h ! k" by (auto simp: in_set_conv_nth)
      with len have "k \<in> set [0..<Suc MAX_SCORE]" by (simp del: upt_Suc)
      with True have "\<not> h ! k \<noteq> 0"
        unfolding nonzero_scores_def filter_empty_conv by blast
      with k show "c = 0" by simp
    qed
    then have "hist_sum h = 0" by (rule hist_sum_zero)
    with tot n0 have "?c None = 100"
      by (simp add: cumulative_percent_def cumulative_count_def)
    with True show ?thesis by simp
  next
    case False
    then have ne: "filter (\<lambda>k. h ! k \<noteq> 0) [0..<Suc MAX_SCORE] \<noteq> []"
      unfolding nonzero_scores_def .
    from last_filter_upt [OF ne] obtain k where k: "last ?ks = k"
      and later: "\<And>j. k < j \<Longrightarrow> j < Suc MAX_SCORE \<Longrightarrow> h ! j = 0"
      unfolding nonzero_scores_def by blast
    from later len have "running_sum h k = hist_sum h"
      by (intro running_sum_tail_zero) simp
    with tot n0 have "?c (Some k) = 100"
      by (simp add: cumulative_percent_def cumulative_count_def add.commute)
    moreover from False have "last (map ?c (None # map Some ?ks)) = ?c (Some (last ?ks))"
      by (simp add: last_map)
    ultimately show ?thesis using k by simp
  qed
  from scores cums sorted last show ?thesis by blast
qed

lemma set_nonzero_scores: "set (nonzero_scores h) = {k. k \<le> MAX_SCORE \<and> h ! k \<noteq> 0}"
proof -
  have "set [0..<Suc MAX_SCORE] = {k. k \<le> MAX_SCORE}" by (auto simp del: upt_Suc)
  then show ?thesis unfolding nonzero_scores_def set_filter by blast
qed

lemma distinct_nonzero_scores: "distinct (nonzero_scores h)"
  unfolding nonzero_scores_def by (intro distinct_filter) (rule distinct_upt)

lemma nonzero_scores_empty_hist: "nonzero_scores empty_hist = []"
proof -
  have "set (nonzero_scores empty_hist) = {}"
    unfolding set_nonzero_scores by (auto simp: nth_empty_hist)
  then show ?thesis by simp
qed

lemma nonzero_scores_update:
  assumes "length h = Suc MAX_SCORE" "k \<le> MAX_SCORE" "h ! k = 0" "v \<noteq> 0"
  shows "nonzero_scores (h[k := v]) = insort k (nonzero_scores h)"
proof (rule sorted_distinct_set_unique)
  show "sorted (nonzero_scores (h[k := v]))" by (rule sorted_nonzero_scores)
  show "distinct (nonzero_scores (h[k := v]))" by (rule distinct_nonzero_scores)
  show "sorted (insort k (nonzero_scores h))"
    using sorted_nonzero_scores [of h] by (simp add: sorted_insort)
  from assms(3) have "k \<notin> set (nonzero_scores h)" by (simp add: set_nonzero_scores)
  then show "distinct (insort k (nonzero_scores h))"
    using distinct_nonzero_scores [of h] by (simp add: distinct_insort)
  show "set (nonzero_scores (h[k := v])) = set (insort k (nonzero_scores h))"
    using assms by (auto simp: set_nonzero_scores set_insort_key nth_list_update)
qed

lemma side_ok_from_consistent:
  assumes "consistent_total h m" "0 \<le> sint iv" "sint m + sint iv = sint n"
  shows "side_ok h iv n"
  using assms by (simp add: side_ok_def consistent_total_def)

lemma report_example_consistent: "consistent_total (empty_hist[0 := 2, 10 := 3]) 5"
proof -
  have "consistent_total (empty_hist[0 := 2]) 2"
    by (rule consistent_total_update [OF consistent_total_empty_hist])
      (simp_all add: nth_empty_hist)
  then show ?thesis
    by (rule consistent_total_update)
      (simp_all add: MAX_SCORE_def nth_empty_hist length_empty_hist)
qed

lemma report_example_scores: "nonzero_scores (empty_hist[0 := 2, 10 := 3]) = [0, 10]"
proof -
  have "nonzero_scores (empty_hist[0 := 2]) = insort 0 (nonzero_scores empty_hist)"
    by (rule nonzero_scores_update) (simp_all add: length_empty_hist nth_empty_hist)
  then have 1: "nonzero_scores (empty_hist[0 := 2]) = [0]"
    by (simp add: nonzero_scores_empty_hist)
  have "nonzero_scores (empty_hist[0 := 2, 10 := 3]) =
      insort 10 (nonzero_scores (empty_hist[0 := 2]))"
    by (rule nonzero_scores_update)
      (simp_all add: length_empty_hist nth_empty_hist MAX_SCORE_def)
  with 1 show ?thesis by simp
qed

lemma report_example_running:
  "running_sum (empty_hist[0 := 2, 10 := 3]) j = (if 10 \<le> j then 5 else 2)"
  by (simp add: running_sum_update running_sum_empty_hist length_empty_hist MAX_SCORE_def
      nth_empty_hist)

theorem cumulative_percentages_witness:
  "side_ok (empty_hist[0 := 2, 10 := 3]) 1 6 \<and> 0 < sint (6 :: c_int) \<and>
   map row_score (report_rows (print_side (empty_hist[0 := 2, 10 := 3]) 1 6)) =
     [None, Some 0, Some 10] \<and>
   map row_cumulative (report_rows (print_side (empty_hist[0 := 2, 10 := 3]) 1 6)) =
     [Num (50 / 3), Num 50, Num 100] \<and>
   sorted [50 / 3, 50, 100 :: real]"
proof -
  let ?h = "empty_hist[0 := 2, 10 := 3]"
  have ok: "side_ok ?h 1 6"
    by (rule side_ok_from_consistent [OF report_example_consistent]) simp_all
  have p: "0 < sint (6 :: c_int)" by simp
  have c: "map (cumulative_percent ?h 1 6) (None # map Some (nonzero_scores ?h)) =
      [50 / 3, 50, 100]"
    by (simp add: report_example_scores cumulative_percent_def cumulative_count_def
        report_example_running)
  from cumulative_percentages [OF ok p]
  have "map row_score (report_rows (print_side ?h 1 6)) = None # map Some (nonzero_scores ?h)"
    and "map row_cumulative (report_rows (print_side ?h 1 6)) =
       map (\<lambda>s. Num (cumulative_percent ?h 1 6 s)) (None # map Some (nonzero_scores ?h))"
    and "sorted (map (cumulative_percent ?h 1 6) (None # map Some (nonzero_scores ?h)))"
    by blast+
  then have "map row_score (report_rows (print_side ?h 1 6)) = [None, Some 0, Some 10]"
    and "map row_cumulative (report_rows (print_side ?h 1 6)) = [Num (50 / 3), Num 50, Num 100]"
    and "sorted [50 / 3, 50, 100 :: real]"
    unfolding c by (simp_all add: report_example_scores cumulative_percent_def
        cumulative_count_def report_example_running)
  with ok p show ?thesis by blast
qed

subsection \<open>The mean, and the report of an empty input\<close>

lemma mean_loop_sum:
  "i \<le> Suc MAX_SCORE \<Longrightarrow>
   mean_loop h i m = m + real_of_int (\<Sum>k = i..<Suc MAX_SCORE. sint (of_nat k * h ! k))"
proof (induction h i m rule: mean_loop.induct)
  case (1 h i m)
  show ?case
  proof (cases "i \<le> MAX_SCORE")
    case False
    with "1.prems" have "i = Suc MAX_SCORE" by simp
    then have "(\<Sum>k = i..<Suc MAX_SCORE. sint (of_nat k * h ! k)) = 0" by simp
    moreover from False have "mean_loop h i m = m"
      by (simp add: mean_loop.simps [of h i m])
    ultimately show ?thesis by simp
  next
    case True
    then have "(\<Sum>k = i..<Suc MAX_SCORE. sint (of_nat k * h ! k)) =
        sint (of_nat i * h ! i) + (\<Sum>k = i + 1..<Suc MAX_SCORE. sint (of_nat k * h ! k))"
      by (simp add: sum.atLeast_Suc_lessThan del: sum.op_ivl_Suc)
    moreover from True have "mean_loop h i m =
        mean_loop h (i + 1) (m + real_of_int (sint (of_nat i * h ! i)))"
      by (simp add: mean_loop.simps [of h i m])
    moreover from True have "mean_loop h (i + 1) (m + real_of_int (sint (of_nat i * h ! i))) =
        m + real_of_int (sint (of_nat i * h ! i)) +
        real_of_int (\<Sum>k = i + 1..<Suc MAX_SCORE. sint (of_nat k * h ! k))"
      by (intro "1.IH") simp_all
    ultimately show ?thesis by simp
  qed
qed

lemma avg_mean_eq:
  "avg_mean h n = double_div (real_of_int (int_products_sum h)) (real_of_int (sint n))"
  using mean_loop_sum [of 0 h 0] by (simp add: avg_mean_def int_products_sum_def)

lemma sint_index_product:
  assumes "k \<le> MAX_SCORE" "in_int_range (int k * sint c)"
  shows "sint (of_nat k * c :: c_int) = int k * sint c"
proof -
  from assms(1) have "sint (of_nat k :: c_int) = int k"
    by (simp add: signed_of_nat signed_take_bit_int_eq_self MAX_SCORE_def)
  with assms(2) show ?thesis
    by (simp add: sint_word_mult signed_take_bit_int_eq_self in_int_range_def)
qed

lemma int_products_sum_exact:
  assumes "\<forall>k\<le>MAX_SCORE. in_int_range (int k * sint (h ! k))"
  shows "int_products_sum h = weighted_sum h"
  unfolding int_products_sum_def weighted_sum_def
proof (rule sum.cong [OF refl])
  fix k assume "k \<in> {0..<Suc MAX_SCORE}"
  then have k: "k \<le> MAX_SCORE" by simp
  with assms have "in_int_range (int k * sint (h ! k))" by blast
  with k show "sint (of_nat k * h ! k) = int k * sint (h ! k)" by (rule sint_index_product)
qed

lemma index_sum_update:
  fixes g :: "nat \<Rightarrow> c_int \<Rightarrow> int"
  assumes "length h = Suc MAX_SCORE" "k \<le> MAX_SCORE"
  shows "(\<Sum>j = 0..<Suc MAX_SCORE. g j (h[k := v] ! j)) =
         (\<Sum>j = 0..<Suc MAX_SCORE. g j (h ! j)) - g k (h ! k) + g k v"
proof -
  let ?S = "{0..<Suc MAX_SCORE}"
  from assms(2) have k: "k \<in> ?S" by simp
  have "(\<Sum>j\<in>?S. g j (h[k := v] ! j)) =
      g k (h[k := v] ! k) + (\<Sum>j\<in>?S - {k}. g j (h[k := v] ! j))"
    by (rule sum.remove [OF _ k]) simp
  also have "(\<Sum>j\<in>?S - {k}. g j (h[k := v] ! j)) = (\<Sum>j\<in>?S - {k}. g j (h ! j))"
    by (rule sum.cong [OF refl]) simp
  also have "g k (h[k := v] ! k) = g k v" using assms by simp
  finally have 1: "(\<Sum>j\<in>?S. g j (h[k := v] ! j)) = g k v + (\<Sum>j\<in>?S - {k}. g j (h ! j))" .
  have "(\<Sum>j\<in>?S. g j (h ! j)) = g k (h ! k) + (\<Sum>j\<in>?S - {k}. g j (h ! j))"
    by (rule sum.remove [OF _ k]) simp
  with 1 show ?thesis by simp
qed

lemma weighted_sum_update:
  assumes "length h = Suc MAX_SCORE" "k \<le> MAX_SCORE"
  shows "weighted_sum (h[k := v]) = weighted_sum h - int k * sint (h ! k) + int k * sint v"
  unfolding weighted_sum_def
  using index_sum_update [OF assms, of "\<lambda>j c. int j * sint c" v] by simp

lemma int_products_sum_update:
  assumes "length h = Suc MAX_SCORE" "k \<le> MAX_SCORE"
  shows "int_products_sum (h[k := v]) =
     int_products_sum h - sint (of_nat k * h ! k) + sint (of_nat k * v)"
  unfolding int_products_sum_def
  using index_sum_update [OF assms, of "\<lambda>j c. sint (of_nat j * c)" v] by simp

lemma sums_empty_hist: "weighted_sum empty_hist = 0" "int_products_sum empty_hist = 0"
proof -
  have "\<And>k. k \<in> {0..<Suc MAX_SCORE} \<Longrightarrow> empty_hist ! k = 0"
    by (simp add: nth_empty_hist)
  then show "weighted_sum empty_hist = 0" "int_products_sum empty_hist = 0"
    unfolding weighted_sum_def int_products_sum_def by (simp_all del: sum.op_ivl_Suc)
qed

lemma avg_mean_wraps:
  "avg_mean (empty_hist[MAX_SCORE := 32768]) 32768 = Num (- 65536) \<and>
   real_of_int (weighted_sum (empty_hist[MAX_SCORE := 32768])) / real_of_int (sint (32768 :: c_int))
     = 65536"
proof -
  have "int_products_sum (empty_hist[MAX_SCORE := 32768]) =
      sint (of_nat MAX_SCORE * 32768 :: c_int)"
    by (simp add: int_products_sum_update length_empty_hist sums_empty_hist nth_empty_hist)
  also have "\<dots> = - 2147483648" by (simp add: MAX_SCORE_def)
  finally have 1: "avg_mean (empty_hist[MAX_SCORE := 32768]) 32768 = Num (- 65536)"
    by (simp add: avg_mean_eq double_div_def)
  have "weighted_sum (empty_hist[MAX_SCORE := 32768]) = int MAX_SCORE * 32768"
    by (simp add: weighted_sum_update length_empty_hist sums_empty_hist nth_empty_hist)
  then have "real_of_int (weighted_sum (empty_hist[MAX_SCORE := 32768]))
      / real_of_int (sint (32768 :: c_int)) = 65536"
    by (simp add: MAX_SCORE_def)
  with 1 show ?thesis by simp
qed

text \<open>
  Where every product \<open>i * count i\<close> fits an \<^verbatim>\<open>int\<close> and the total is not zero,
  \<^verbatim>\<open>avg_mean\<close> does return the weighted average over all buckets; for one score 5 and
  one score 10 it is 7.5.
\<close>

lemma avg_mean_weighted_average:
  assumes "length h = Suc MAX_SCORE" "\<forall>k\<le>MAX_SCORE. in_int_range (int k * sint (h ! k))"
    and "sint n \<noteq> 0"
  shows "avg_mean h n = Num (real_of_int (weighted_sum h) / real_of_int (sint n))"
  using assms(2,3) by (simp add: avg_mean_eq int_products_sum_exact double_div_def)

lemma avg_mean_weighted_average_example:
  "avg_mean (empty_hist[5 := 1, 10 := 1]) 2 = Num 7.5"
proof -
  let ?h = "empty_hist[5 := 1, 10 := 1]"
  have r: "\<forall>k\<le>MAX_SCORE. in_int_range (int k * sint (?h ! k))"
  proof (intro allI impI)
    fix k assume k: "k \<le> MAX_SCORE"
    then have "?h ! k = (if k = 10 then 1 else if k = 5 then 1 else 0)"
      by (simp add: nth_list_update length_empty_hist nth_empty_hist MAX_SCORE_def)
    then show "in_int_range (int k * sint (?h ! k))"
      by (simp add: in_int_range_def)
  qed
  have n: "sint (2 :: c_int) \<noteq> 0" by simp
  have "weighted_sum ?h = 15"
    by (simp add: weighted_sum_update length_empty_hist sums_empty_hist nth_empty_hist
        MAX_SCORE_def)
  moreover have "length ?h = Suc MAX_SCORE" by (simp add: length_empty_hist)
  from avg_mean_weighted_average [OF this r n]
  have "avg_mean ?h 2 = Num (real_of_int (weighted_sum ?h) / real_of_int (sint (2 :: c_int)))" .
  ultimately show ?thesis by simp
qed

lemma fold_loop_body_skip:
  "\<forall>b\<in>set bs. classify b = None \<Longrightarrow> fold loop_body bs st = st"
  by (induction bs arbitrary: st) (simp_all add: loop_body_skip)

lemma read_in_scores_nothing:
  assumes "classified stdin = 0"
  shows "read_in_scores stdin initial_scores = initial_scores"
proof -
  from assms have "filter (\<lambda>b. classify b \<noteq> None) (buffers stdin) = []"
    by (simp only: classified_def length_0_conv)
  then have "\<forall>b\<in>set (buffers stdin). \<not> classify b \<noteq> None"
    by (simp only: filter_empty_conv)
  then have "\<forall>b\<in>set (buffers stdin). classify b = None" by blast
  then have "fold loop_body (buffers stdin) (initial_scores\<lparr>count := 0\<rparr>) =
      initial_scores\<lparr>count := 0\<rparr>"
    by (rule fold_loop_body_skip)
  then show ?thesis by (simp add: read_in_scores_def read_loop_fold initial_scores_def)
qed

lemma print_side_zero_total:
  "report_rows (print_side empty_hist 0 0) =
     [\<lparr>row_score = None, row_count = 0, row_percent = NaN, row_cumulative = NaN,
       row_outstanding = NaN\<rparr>]"
  "report_mean (print_side empty_hist 0 0) = NaN"
  "report_median (print_side empty_hist 0 0) = Num 32768.5"
proof -
  show "report_rows (print_side empty_hist 0 0) =
     [\<lparr>row_score = None, row_count = 0, row_percent = NaN, row_cumulative = NaN,
       row_outstanding = NaN\<rparr>]"
    by (simp add: report_rows_eq [OF length_empty_hist] nonzero_scores_empty_hist
        make_row_def percent_def double_div_def)
  show "report_mean (print_side empty_hist 0 0) = NaN"
    by (simp add: print_side_def avg_mean_eq sums_empty_hist double_div_def)
  have "\<forall>c\<in>set empty_hist. c = 0" by (auto dest: in_empty_hist)
  with median_of_zero_histogram [OF length_empty_hist]
  show "report_median (print_side empty_hist 0 0) = Num 32768.5"
    by (simp add: print_side_def)
qed

lemma main_zero_total:
  assumes "classified stdin = 0"
  shows "main stdin = (print_side empty_hist 0 0, print_side empty_hist 0 0)"
proof -
  have "main stdin =
      print_stats (score_count_in initial_scores) (score_count_out initial_scores)
        (invalid_in initial_scores) (invalid_out initial_scores) (count initial_scores)"
    by (simp add: main_def read_in_scores_nothing [OF assms])
  then show ?thesis by (simp add: print_stats_def initial_scores_def)
qed

text \<open>
  Claim C4, as the code has it. The report has no special case for a total of zero. When no
  line was counted (an empty input, or malformed lines only) the total and all counters are
  zero, each side's block has the one row of invalid scores, whose percentage, cumulative
  and outstanding values are \<open>0 / 0\<close>, that is NaN; the mean is NaN as well, and the median
  is 32768.5.
\<close>

theorem zero_total_report:
  assumes "classified stdin = 0"
  shows "count (read_in_scores stdin initial_scores) = 0 \<and>
     main stdin = (print_side empty_hist 0 0, print_side empty_hist 0 0) \<and>
     report_rows (print_side empty_hist 0 0) =
       [\<lparr>row_score = None, row_count = 0, row_percent = NaN, row_cumulative = NaN,
         row_outstanding = NaN\<rparr>] \<and>
     report_mean (print_side empty_hist 0 0) = NaN \<and>
     report_median (print_side empty_hist 0 0) = Num 32768.5"
  using read_in_scores_nothing [OF assms] main_zero_total [OF assms] print_side_zero_total
  by (simp add: initial_scores_def)

lemma buffers_Nil: "buffers [] = []"
  by (simp add: buffers.simps fgets_def)

lemma classified_examples:
  "classified [] = 0" "classified (''abc'' @ [CHR 0x0A]) = 0"
proof -
  show "classified [] = 0" by (simp add: classified_def buffers_Nil)
  have "buffers (''abc'' @ [CHR 0x0A]) = [''abc'' @ [CHR 0x0A]]"
    by (simp add: buffers.simps fgets_def eval_nat_numeral)
  then show "classified (''abc'' @ [CHR 0x0A]) = 0"
    by (simp add: classified_def scan_defs)
qed

theorem zero_total_report_witness:
  "classified (''abc'' @ [CHR 0x0A]) = 0 \<and>
   count (read_in_scores (''abc'' @ [CHR 0x0A]) initial_scores) = 0 \<and>
   map row_percent (report_rows (fst (main (''abc'' @ [CHR 0x0A])))) = [NaN] \<and>
   report_mean (fst (main (''abc'' @ [CHR 0x0A]))) = NaN \<and>
   report_median (fst (main (''abc'' @ [CHR 0x0A]))) = Num 32768.5"
  using zero_total_report [OF classified_examples(2)] classified_examples(2) by simp

text \<open>On the empty input the percentages and the mean of both blocks are NaN.\<close>

theorem zero_total_report_counterexample:
  "count (read_in_scores [] initial_scores) = 0 \<and>
   map row_percent (report_rows (fst (main []))) = [NaN] \<and>
   map row_cumulative (report_rows (fst (main []))) = [NaN] \<and>
   report_mean (fst (main [])) = NaN \<and>
   map row_percent (report_rows (snd (main []))) = [NaN] \<and>
   report_mean (snd (main [])) = NaN"
  using read_in_scores_nothing [OF classified_examples(1)]
    main_zero_total [OF classified_examples(1)] print_side_zero_total
  by (simp add: initial_scores_def)

subsection \<open>The mean of many high scores\<close>

lemma fgets_score_line: "fgets 24 (score_line @ rest) = Some (score_line, rest)"
  by (simp add: score_line_def fgets_def eval_nat_numeral)

lemma buffers_score_lines: "buffers (concat (replicate k score_line)) = replicate k score_line"
proof (induction k)
  case 0
  then show ?case by (simp add: buffers.simps fgets_def)
next
  case (Suc k)
  have "buffers (score_line @ concat (replicate k score_line)) =
      score_line # buffers (concat (replicate k score_line))"
    by (subst buffers.simps) (simp add: fgets_score_line)
  with Suc show ?case by simp
qed

lemma classify_score_line: "classify score_line = Some (65536, 0)"
  by (simp add: score_line_def scan_defs)

lemma loop_body_score_line:
  "score_count_in (loop_body score_line st) =
     (score_count_in st)[MAX_SCORE := score_count_in st ! MAX_SCORE + 1]"
  "invalid_in (loop_body score_line st) = invalid_in st"
  "count (loop_body score_line st) = count st + 1"
proof -
  have "nat (sint (65536 :: c_int)) = MAX_SCORE" "\<not> int MAX_SCORE < sint (65536 :: c_int)"
    by (simp_all add: MAX_SCORE_def)
  then show "score_count_in (loop_body score_line st) =
     (score_count_in st)[MAX_SCORE := score_count_in st ! MAX_SCORE + 1]"
    "invalid_in (loop_body score_line st) = invalid_in st"
    "count (loop_body score_line st) = count st + 1"
    by (simp_all add: loop_body_def classify_score_line store_score_def split: prod.splits)
qed

lemma fold_score_lines:
  "length (score_count_in st) = Suc MAX_SCORE \<Longrightarrow>
   score_count_in (fold loop_body (replicate k score_line) st) =
     (score_count_in st)[MAX_SCORE := score_count_in st ! MAX_SCORE + of_nat k] \<and>
   invalid_in (fold loop_body (replicate k score_line) st) = invalid_in st \<and>
   count (fold loop_body (replicate k score_line) st) = count st + of_nat k"
proof (induction k arbitrary: st)
  case 0
  then show ?case by simp
next
  case (Suc k)
  let ?st = "loop_body score_line st"
  from Suc.prems have len: "length (score_count_in ?st) = Suc MAX_SCORE"
    by (simp add: loop_body_score_line)
  from Suc.prems have at: "score_count_in ?st ! MAX_SCORE = score_count_in st ! MAX_SCORE + 1"
    by (simp add: loop_body_score_line)
  from Suc.IH [OF len] show ?case
    by (simp add: Suc.prems loop_body_score_line ac_simps)
qed

lemma read_many_high_scores:
  "score_count_in (read_in_scores many_high_scores initial_scores) = empty_hist[MAX_SCORE := 32768]"
  "count (read_in_scores many_high_scores initial_scores) = 32768"
proof -
  have "length (score_count_in (initial_scores\<lparr>count := 0\<rparr>)) = Suc MAX_SCORE"
    by (simp add: initial_scores_def length_empty_hist)
  from fold_score_lines [OF this, of 32768]
  show "score_count_in (read_in_scores many_high_scores initial_scores) =
      empty_hist[MAX_SCORE := 32768]"
    "count (read_in_scores many_high_scores initial_scores) = 32768"
    by (simp_all add: read_in_scores_def read_loop_fold many_high_scores_def
        buffers_score_lines initial_scores_def nth_empty_hist)
qed

text \<open>
  Claim C7 says that \<^verbatim>\<open>avg_mean\<close> returns the weighted average
  \<open>(\<Sum>i. i * count i) / N\<close> of every histogram with \<open>N > 0\<close>. The code forms each
  product \<^verbatim>\<open>i * score_count_array[i]\<close> in \<^verbatim>\<open>int\<close> before it converts it to a double.
  With 32768 scores in bucket 65536 the product is \<open>2 ^ 31\<close>, which no \<^verbatim>\<open>int\<close> holds: the
  weighted average is 65536 and the function returns -65536. The 32768 input lines
  \<^verbatim>\<open>65536 0\<close> lead there: the mean that \<^verbatim>\<open>main\<close> reports for the inbound scores is
  -65536.
\<close>

theorem avg_mean_overflow:
  "avg_mean (empty_hist[MAX_SCORE := 32768]) 32768 = Num (- 65536) \<and>
   real_of_int (weighted_sum (empty_hist[MAX_SCORE := 32768])) / real_of_int (sint (32768 :: c_int))
     = 65536 \<and>
   score_count_in (read_in_scores many_high_scores initial_scores) = empty_hist[MAX_SCORE := 32768] \<and>
   count (read_in_scores many_high_scores initial_scores) = 32768 \<and>
   report_mean (fst (main many_high_scores)) = Num (- 65536)"
proof -
  have "report_mean (fst (main many_high_scores)) =
      avg_mean (score_count_in (read_in_scores many_high_scores initial_scores))
        (count (read_in_scores many_high_scores initial_scores))"
    by (simp add: main_def Let_def print_stats_def print_side_def)
  then have "report_mean (fst (main many_high_scores)) = Num (- 65536)"
    using avg_mean_wraps by (simp add: read_many_high_scores)
  with avg_mean_wraps read_many_high_scores show ?thesis by simp
qed

end
